theory Spec2Isabelle
  imports Main "HOL-Library.Sublist"
begin

section \<open>Strings as the Python code uses them\<close>

text \<open>
  A Python string is modelled as a \<^typ>\<open>string\<close> whose characters are the code points
  0 to 255. \<^verbatim>\<open>str.strip()\<close> removes the characters for which \<^verbatim>\<open>str.isspace()\<close>
  holds: below 256 these are the ASCII whitespace, the four separators 0x1C to 0x1F,
  the next-line character 0x85 and the no-break space 0xA0. \<^verbatim>\<open>str.lower()\<close> maps
  the ASCII capitals and the capitals 0xC0 to 0xDE (without the multiplication sign
  0xD7) to the letter 0x20 above. The digits matched by the pattern \<^verbatim>\<open>\d\<close> are 0 to
  9, the only decimal digits below 256.
\<close>

definition py_isspace :: "char \<Rightarrow> bool" where
  "py_isspace c = (c \<in> set [CHR 0x09, CHR 0x0A, CHR 0x0B, CHR 0x0C, CHR 0x0D,
                               CHR 0x1C, CHR 0x1D, CHR 0x1E, CHR 0x1F, CHR 0x20,
                               CHR 0x85, CHR 0xA0])"

definition strip :: "string \<Rightarrow> string" where
  "strip s = rev (dropWhile py_isspace (rev (dropWhile py_isspace s)))"

definition upper_chars :: "string" where
  "upper_chars = ''ABCDEFGHIJKLMNOPQRSTUVWXYZ'' @
     [CHR 0xC0, CHR 0xC1, CHR 0xC2, CHR 0xC3, CHR 0xC4, CHR 0xC5, CHR 0xC6, CHR 0xC7,
      CHR 0xC8, CHR 0xC9, CHR 0xCA, CHR 0xCB, CHR 0xCC, CHR 0xCD, CHR 0xCE, CHR 0xCF,
      CHR 0xD0, CHR 0xD1, CHR 0xD2, CHR 0xD3, CHR 0xD4, CHR 0xD5, CHR 0xD6,
      CHR 0xD8, CHR 0xD9, CHR 0xDA, CHR 0xDB, CHR 0xDC, CHR 0xDD, CHR 0xDE]"

definition lower_chars :: "string" where
  "lower_chars = ''abcdefghijklmnopqrstuvwxyz'' @
     [CHR 0xE0, CHR 0xE1, CHR 0xE2, CHR 0xE3, CHR 0xE4, CHR 0xE5, CHR 0xE6, CHR 0xE7,
      CHR 0xE8, CHR 0xE9, CHR 0xEA, CHR 0xEB, CHR 0xEC, CHR 0xED, CHR 0xEE, CHR 0xEF,
      CHR 0xF0, CHR 0xF1, CHR 0xF2, CHR 0xF3, CHR 0xF4, CHR 0xF5, CHR 0xF6,
      CHR 0xF8, CHR 0xF9, CHR 0xFA, CHR 0xFB, CHR 0xFC, CHR 0xFD, CHR 0xFE]"

definition lower_char :: "char \<Rightarrow> char" where
  "lower_char c = (case map_of (zip upper_chars lower_chars) c of Some d \<Rightarrow> d | None \<Rightarrow> c)"

definition lower :: "string \<Rightarrow> string" where
  "lower s = map lower_char s"

definition digit_char :: "char \<Rightarrow> bool" where
  "digit_char c = (c \<in> set ''0123456789'')"

definition digit_val :: "char \<Rightarrow> nat" where
  "digit_val c = of_char c - 48"

definition nat_of_digits :: "string \<Rightarrow> nat" where
  "nat_of_digits ds = foldl (\<lambda>a c. 10 * a + digit_val c) 0 ds"

section \<open>Candidate Assembler: the date parser (llm_client.py)\<close>

text \<open>
  \<^verbatim>\<open>datetime.strptime(s, "%m/%d/%Y")\<close>: the standard library turns the format into
  the pattern \<^verbatim>\<open>(1[0-2]|0[1-9]|[1-9])/(3[0-1]|[1-2]\d|0[1-9]|[1-9]| [1-9])/(\d\d\d\d)\<close>,
  matches it at the start of the string, rejects unconverted trailing data, and then
  rejects a day that the month does not have and the year 0. Neither the month nor the
  day alternative contains a slash, so the month field is the text before the first
  slash and the day field the text between the first two.
\<close>

definition split_slash :: "string \<Rightarrow> (string \<times> string) option" where
  "split_slash s =
     (case dropWhile (\<lambda>c. c \<noteq> CHR ''/'') s of
        [] \<Rightarrow> None
      | _ # r \<Rightarrow> Some (takeWhile (\<lambda>c. c \<noteq> CHR ''/'') s, r))"

definition month_field :: "string \<Rightarrow> bool" where
  "month_field m =
     (case m of
        [a] \<Rightarrow> a \<in> set ''123456789''
      | [a, b] \<Rightarrow> (a = CHR ''1'' \<and> b \<in> set ''012'') \<or> (a = CHR ''0'' \<and> b \<in> set ''123456789'')
      | _ \<Rightarrow> False)"

definition day_field :: "string \<Rightarrow> bool" where
  "day_field d =
     (case d of
        [a] \<Rightarrow> a \<in> set ''123456789''
      | [a, b] \<Rightarrow> (a = CHR ''3'' \<and> b \<in> set ''01'') \<or> (a \<in> set ''12'' \<and> digit_char b)
                 \<or> (a \<in> set ''0 '' \<and> b \<in> set ''123456789'')
      | _ \<Rightarrow> False)"

definition year_field :: "string \<Rightarrow> bool" where
  "year_field y = (length y = 4 \<and> list_all digit_char y)"

definition leap_year :: "nat \<Rightarrow> bool" where
  "leap_year y = (y mod 4 = 0 \<and> (y mod 100 \<noteq> 0 \<or> y mod 400 = 0))"

definition days_in_month :: "nat \<Rightarrow> nat \<Rightarrow> nat" where
  "days_in_month y m =
     (if m = 2 then (if leap_year y then 29 else 28)
      else if m \<in> {4, 6, 9, 11} then 30 else 31)"

text \<open>The result stands for \<^verbatim>\<open>datetime(year, month, day, 0, 0)\<close>.\<close>

definition strptime_mdY :: "string \<Rightarrow> (nat \<times> nat \<times> nat) option" where
  "strptime_mdY s =
     (case split_slash s of
        None \<Rightarrow> None
      | Some (m, r) \<Rightarrow>
          (case split_slash r of
             None \<Rightarrow> None
           | Some (d, y) \<Rightarrow>
               if month_field m \<and> day_field d \<and> year_field y
               then (let year = nat_of_digits y;
                         month = nat_of_digits m;
                         day = nat_of_digits (dropWhile (\<lambda>c. c = CHR '' '') d)
                     in if 1 \<le> year \<and> day \<le> days_in_month year month
                        then Some (year, month, day) else None)
               else None))"

text \<open>
  \<^verbatim>\<open>_parse_date\<close>: the empty string gives \<^verbatim>\<open>None\<close>, and so does every string
  \<^verbatim>\<open>strptime\<close> rejects (the exception is caught).
\<close>

definition parse_date :: "string \<Rightarrow> (nat \<times> nat \<times> nat) option" where
  "parse_date date_str = (if date_str = [] then None else strptime_mdY date_str)"

text \<open>
  The canonical form written by \<^verbatim>\<open>strftime("%Y-%m-%d")\<close> in the date normalizer:
  four digits, a hyphen, two digits, a hyphen, two digits.
\<close>

definition iso_date :: "string \<Rightarrow> bool" where
  "iso_date s =
     (length s = 10 \<and> list_all digit_char (take 4 s) \<and> s ! 4 = CHR ''-''
      \<and> list_all digit_char (take 2 (drop 5 s)) \<and> s ! 7 = CHR ''-''
      \<and> list_all digit_char (drop 8 s))"

section \<open>Candidate Assembler: the resolved flag (llm_client.py)\<close>

text \<open>
  Python's built-in \<^verbatim>\<open>float(s)\<close> on a string, as far as \<^verbatim>\<open>bool(float(s))\<close> needs it.
  \<^verbatim>\<open>float\<close> first rewrites the string to ASCII: a character below 127 is kept, a
  whitespace character above becomes a blank, and at the first other character the
  string is cut and ends in a question mark. It then removes the C-locale whitespace at
  both ends, accepts single underscores between digits, and reads an optional sign
  followed by \<^verbatim>\<open>inf\<close>, \<^verbatim>\<open>infinity\<close> or \<^verbatim>\<open>nan\<close> (in any case) or by a decimal
  numeral with an optional fraction and exponent; the whole string must be consumed. A
  numeral is kept as sign, mantissa \<open>m\<close> and decimal exponent \<open>e\<close>, standing for
  \<open>m * 10 ^ e\<close>.
\<close>

datatype pyfloat = Nan | Inf bool | Dec bool nat int

definition c_isspace :: "char \<Rightarrow> bool" where
  "c_isspace c = (c \<in> set [CHR 0x09, CHR 0x0A, CHR 0x0B, CHR 0x0C, CHR 0x0D, CHR 0x20])"

fun to_ascii :: "string \<Rightarrow> string" where
  "to_ascii [] = []"
| "to_ascii (c # cs) =
     (if of_char c < (127 :: nat) then c # to_ascii cs
      else if py_isspace c then CHR '' '' # to_ascii cs
      else [CHR ''?''])"

fun strip_underscores :: "char \<Rightarrow> string \<Rightarrow> string option" where
  "strip_underscores prev [] = (if prev = CHR ''_'' then None else Some [])"
| "strip_underscores prev (c # cs) =
     (if c = CHR ''_''
      then (if digit_char prev then strip_underscores c cs else None)
      else if prev = CHR ''_'' \<and> \<not> digit_char c then None
      else map_option ((#) c) (strip_underscores c cs))"

definition take_sign :: "string \<Rightarrow> bool \<times> string" where
  "take_sign s =
     (case s of
        [] \<Rightarrow> (False, [])
      | c # t \<Rightarrow> if c = CHR ''-'' then (True, t) else if c = CHR ''+'' then (False, t) else (False, s))"

definition strtod_number :: "bool \<Rightarrow> string \<Rightarrow> pyfloat option" where
  "strtod_number neg s =
     (let ip = takeWhile digit_char s;
          r1 = dropWhile digit_char s;
          has_point = (r1 \<noteq> [] \<and> hd r1 = CHR ''.'');
          fp = (if has_point then takeWhile digit_char (tl r1) else []);
          r2 = (if has_point then dropWhile digit_char (tl r1) else r1);
          m = nat_of_digits (ip @ fp)
      in if ip = [] \<and> fp = [] then None
         else if r2 = [] then Some (Dec neg m (- int (length fp)))
         else if hd r2 = CHR ''e'' \<or> hd r2 = CHR ''E''
         then (let (eneg, t) = take_sign (tl r2)
               in if t = [] \<or> \<not> list_all digit_char t then None
                  else Some (Dec neg m
                         ((if eneg then - int (nat_of_digits t) else int (nat_of_digits t))
                          - int (length fp))))
         else None)"

definition strtod :: "string \<Rightarrow> pyfloat option" where
  "strtod s =
     (let (neg, r) = take_sign s
      in if lower r = ''inf'' \<or> lower r = ''infinity'' then Some (Inf neg)
         else if lower r = ''nan'' then Some Nan
         else strtod_number neg r)"

definition py_float :: "string \<Rightarrow> pyfloat option" where
  "py_float s =
     (case strip_underscores (CHR 0x00)
             (rev (dropWhile c_isspace (rev (dropWhile c_isspace (to_ascii s))))) of
        None \<Rightarrow> None
      | Some t \<Rightarrow> strtod t)"

text \<open>
  \<^verbatim>\<open>bool(x)\<close> of a float is \<^verbatim>\<open>x != 0\<close>. A numeral is read with correct rounding
  (ties to even), so it is the float zero exactly when its value is at most
  \<open>2 ^ -1075\<close>, half the smallest subnormal; a NaN and the infinities are not zero.
\<close>

definition float_truthy :: "pyfloat \<Rightarrow> bool" where
  "float_truthy f =
     (case f of
        Nan \<Rightarrow> True
      | Inf _ \<Rightarrow> True
      | Dec _ m e \<Rightarrow> (if 0 \<le> e then m \<noteq> 0 else 10 ^ nat (- e) < m * 2 ^ 1075))"

text \<open>
  \<^verbatim>\<open>_parse_resolved\<close>. The result is Python's \<^verbatim>\<open>Optional[bool]\<close>; every exception
  of \<^verbatim>\<open>float\<close> is caught and becomes \<^verbatim>\<open>None\<close>.
\<close>

definition parse_resolved :: "string \<Rightarrow> bool option" where
  "parse_resolved v =
     (if v = [] then None
      else (let s = lower (strip v)
            in if s = ''true'' then Some True
               else if s = ''false'' then Some False
               else (case py_float s of
                       None \<Rightarrow> None
                     | Some f \<Rightarrow> Some (float_truthy f))))"

section \<open>Candidate Assembler: candidates from search hits (llm_client.py)\<close>

text \<open>
  \<^verbatim>\<open>list.sort(key=..., reverse=True)\<close> is stable: it orders by descending key and keeps
  the encounter order of equal keys. Scores are floats in the source; they are modelled
  by a linearly ordered type (no NaN).
\<close>

fun insort_desc :: "('a \<Rightarrow> 's::linorder) \<Rightarrow> 'a \<Rightarrow> 'a list \<Rightarrow> 'a list" where
  "insort_desc key x [] = [x]"
| "insort_desc key x (y # ys) =
     (if key y \<le> key x then x # y # ys else y # insort_desc key x ys)"

definition sort_desc :: "('a \<Rightarrow> 's::linorder) \<Rightarrow> 'a list \<Rightarrow> 'a list" where
  "sort_desc key xs = foldr (insort_desc key) xs []"

text \<open>
  A metadata object is a JSON object, a dictionary from strings to JSON values. The
  Candidate Assembler reads string values out of it; \<^verbatim>\<open>meta.get(k, d)\<close> is
  \<open>meta_get meta k d\<close>.
\<close>

type_synonym 'a json_object = "(string \<times> 'a) list"

type_synonym metadata = "string json_object"

definition meta_get :: "metadata \<Rightarrow> string \<Rightarrow> string \<Rightarrow> string" where
  "meta_get meta k d = (case map_of meta k of None \<Rightarrow> d | Some v \<Rightarrow> v)"

text \<open>
  A search hit: the dictionary with keys \<^verbatim>\<open>id\<close>, \<^verbatim>\<open>score\<close>, \<^verbatim>\<open>metadata\<close>. The
  index hands the metadata object on as it stored it (\<open>'m\<close>).
\<close>

record ('s, 'm) hit =
  hit_id :: string
  hit_score :: 's
  hit_metadata :: 'm

record 's candidate =
  c_ticket_id :: string
  c_problem :: string
  c_resolution :: string
  c_date :: string
  c_agent_name :: string
  c_category :: string
  c_resolved :: "bool option"
  c_score :: 's
  c_parsed_date :: "(nat \<times> nat \<times> nat) option"

definition candidate_of :: "('s, metadata) hit \<Rightarrow> 's candidate" where
  "candidate_of ticket =
     (let meta = hit_metadata ticket;
          date = meta_get meta ''date'' []
      in \<lparr> c_ticket_id = meta_get meta ''ticket_id'' (hit_id ticket),
           c_problem = meta_get meta ''problem'' [],
           c_resolution = meta_get meta ''resolution'' [],
           c_date = date,
           c_agent_name = meta_get meta ''agent_name'' [],
           c_category = meta_get meta ''category'' [],
           c_resolved = parse_resolved (meta_get meta ''resolved'' []),
           c_score = hit_score ticket,
           c_parsed_date = parse_date date \<rparr>)"

definition prepare_candidates :: "('s::linorder, metadata) hit list \<Rightarrow> 's candidate list" where
  "prepare_candidates similar_tickets = sort_desc c_score (map candidate_of similar_tickets)"

text \<open>
  The characters that can occur in a string \<^verbatim>\<open>float\<close> accepts: digits, signs, the
  point, the underscore, the exponent letter and the letters of \<^verbatim>\<open>inf\<close>,
  \<^verbatim>\<open>infinity\<close> and \<^verbatim>\<open>nan\<close>.
\<close>

definition float_char :: "char \<Rightarrow> bool" where
  "float_char c = (c \<in> set ''0123456789+-._eEiInNfFaAtTyY'')"

text \<open>
  The numerals \<^verbatim>\<open>float\<close> reads, stated apart from the reader: an optional sign, digits
  with an optional point among them (at least one digit in all), and an optional
  exponent: the letter \<^verbatim>\<open>e\<close> or \<^verbatim>\<open>E\<close>, an optional sign and at least one digit.
  \<open>n_exp\<close> holds the letter, the sign and the digits of the exponent.
\<close>

definition sign_text :: "string \<Rightarrow> bool" where
  "sign_text sg = (sg = [] \<or> sg = ''+'' \<or> sg = ''-'')"

record numeral =
  n_sign :: string
  n_int :: string
  n_point :: bool
  n_frac :: string
  n_exp :: "(char \<times> string \<times> string) option"

definition numeral_ok :: "numeral \<Rightarrow> bool" where
  "numeral_ok n =
     (sign_text (n_sign n)
      \<and> list_all digit_char (n_int n) \<and> list_all digit_char (n_frac n)
      \<and> (n_int n \<noteq> [] \<or> n_frac n \<noteq> [])
      \<and> (n_point n \<or> n_frac n = [])
      \<and> (case n_exp n of
            None \<Rightarrow> True
          | Some (e, sg, ds) \<Rightarrow>
              (e = CHR ''e'' \<or> e = CHR ''E'') \<and> sign_text sg \<and> ds \<noteq> [] \<and> list_all digit_char ds))"

definition numeral_text :: "numeral \<Rightarrow> string" where
  "numeral_text n =
     n_sign n @ n_int n @ (if n_point n then CHR ''.'' # n_frac n else [])
     @ (case n_exp n of None \<Rightarrow> [] | Some (e, sg, ds) \<Rightarrow> e # sg @ ds)"

text \<open>
  The value of a numeral is \<open>\<plusminus> m * 10 ^ e\<close> for the \<open>m\<close> and \<open>e\<close> below. It is
  read as the float zero when it is at most \<open>2 ^ -1075\<close>, that is when
  \<open>m * 10 ^ e * 2 ^ 1075 \<le> 1\<close>.
\<close>

definition numeral_mantissa :: "numeral \<Rightarrow> nat" where
  "numeral_mantissa n = nat_of_digits (n_int n @ n_frac n)"

definition numeral_exponent :: "numeral \<Rightarrow> int" where
  "numeral_exponent n =
     (case n_exp n of
        None \<Rightarrow> 0
      | Some (e, sg, ds) \<Rightarrow> if sg = ''-'' then - int (nat_of_digits ds) else int (nat_of_digits ds))
     - int (length (n_frac n))"

definition reads_as_zero :: "numeral \<Rightarrow> bool" where
  "reads_as_zero n =
     (numeral_mantissa n * 10 ^ nat (numeral_exponent n) * 2 ^ 1075
        \<le> 10 ^ nat (- numeral_exponent n))"

text \<open>
  Underscores may group the digits of a numeral: each one stands between two digits.
  The words \<^verbatim>\<open>float\<close> reads besides numerals are \<^verbatim>\<open>inf\<close>, \<^verbatim>\<open>infinity\<close> and
  \<^verbatim>\<open>nan\<close>, in any case, with an optional sign.
\<close>

definition underscores_ok :: "string \<Rightarrow> bool" where
  "underscores_ok s =
     (\<forall>pre post. s = pre @ CHR ''_'' # post \<longrightarrow>
        pre \<noteq> [] \<and> digit_char (last pre) \<and> post \<noteq> [] \<and> digit_char (hd post))"

text \<open>
  The same condition for a string \<open>s\<close> that follows the character \<open>prev\<close>: an
  underscore before \<open>s\<close> needs a digit at the head of \<open>s\<close>, and the left neighbour of
  an underscore at the head of \<open>s\<close> is \<open>prev\<close>.
\<close>

definition grouped :: "char \<Rightarrow> string \<Rightarrow> bool" where
  "grouped prev s =
     ((prev = CHR ''_'' \<longrightarrow> s \<noteq> [] \<and> digit_char (hd s))
      \<and> (\<forall>pre post. s = pre @ CHR ''_'' # post \<longrightarrow>
             digit_char (last (prev # pre)) \<and> post \<noteq> [] \<and> digit_char (hd post)))"

definition without_underscores :: "string \<Rightarrow> string" where
  "without_underscores s = filter (\<lambda>c. c \<noteq> CHR ''_'') s"

definition special_word :: "string \<Rightarrow> bool" where
  "special_word s =
     (\<exists>sg w. s = sg @ w \<and> sign_text sg \<and> lower w \<in> set [''inf'', ''infinity'', ''nan''])"

definition reads_numeral :: "string \<Rightarrow> numeral \<Rightarrow> bool" where
  "reads_numeral s n = (numeral_ok n \<and> underscores_ok s \<and> without_underscores s = numeral_text n)"

section \<open>Vector Index (faiss_index.py, embeddings.py)\<close>

text \<open>
  The exceptions the index subsystem raises, by their Python class. \<^verbatim>\<open>build\<close> and
  \<^verbatim>\<open>encode_texts\<close> raise \<^verbatim>\<open>ValueError\<close> ("No documents found", "No embeddings
  generated", and the one \<^verbatim>\<open>range\<close> raises on a zero step); \<^verbatim>\<open>save\<close> and
  \<^verbatim>\<open>search\<close> raise \<^verbatim>\<open>RuntimeError\<close> on an object without index; \<^verbatim>\<open>load\<close>
  raises \<^verbatim>\<open>FileNotFoundError\<close> itself when the index artifact is absent, and
  \<^verbatim>\<open>np.load\<close> and \<^verbatim>\<open>open\<close> raise the same class on a missing auxiliary artifact
  (only the message differs, and no caller reads it). \<^verbatim>\<open>json.loads\<close> raises
  \<^verbatim>\<open>JSONDecodeError\<close>, and writing an object that cannot be encoded raises
  \<^verbatim>\<open>UnicodeEncodeError\<close> (both are subclasses of \<^verbatim>\<open>ValueError\<close> in Python).
\<close>

datatype error =
    ValueError
  | RuntimeError
  | FileNotFoundError
  | JSONDecodeError
  | UnicodeEncodeError
  | IndexError

text \<open>
  A document as read from the documents file: a JSON object whose keys \<^verbatim>\<open>id\<close>,
  \<^verbatim>\<open>text\<close> and \<^verbatim>\<open>metadata\<close> may be absent (\<open>None\<close>); \<^verbatim>\<open>doc.get(k, d)\<close> then
  yields the default. The metadata is a JSON object whose values (\<open>'a\<close>) the index
  never looks into.
\<close>

record 'a document =
  doc_id :: "string option"
  doc_text :: "string option"
  doc_metadata :: "'a json_object option"

definition get_id :: "'a document \<Rightarrow> string" where
  "get_id doc = strip (case doc_id doc of None \<Rightarrow> [] | Some i \<Rightarrow> i)"

definition get_text :: "'a document \<Rightarrow> string" where
  "get_text doc = strip (case doc_text doc of None \<Rightarrow> [] | Some t \<Rightarrow> t)"

definition get_meta :: "'a document \<Rightarrow> 'a json_object" where
  "get_meta doc = (case doc_metadata doc of None \<Rightarrow> [] | Some m \<Rightarrow> m)"

text \<open>
  \<^verbatim>\<open>_prepare_items\<close>: the three parallel lists of the documents that are kept. A
  document survives when its trimmed id and its trimmed text are both non-empty.
\<close>

definition survives :: "'a document \<Rightarrow> bool" where
  "survives doc = (get_id doc \<noteq> [] \<and> get_text doc \<noteq> [])"

fun prepare_items :: "'a document list \<Rightarrow> string list \<times> string list \<times> 'a json_object list" where
  "prepare_items [] = ([], [], [])"
| "prepare_items (doc # documents) =
     (let (idl, texts, metas) = prepare_items documents
      in if get_id doc = [] \<or> get_text doc = [] then (idl, texts, metas)
         else (get_id doc # idl, get_text doc # texts, get_meta doc # metas))"

text \<open>
  \<^verbatim>\<open>EmbeddingModel.encode_texts\<close>. \<open>enc\<close> is the sentence-transformer call on one
  batch (one vector per text), \<open>batch_size\<close> the model's batch size. The batches are the
  slices \<^verbatim>\<open>texts[i : i + batch_size]\<close> for \<^verbatim>\<open>i in range(0, len(texts), batch_size)\<close>;
  \<^verbatim>\<open>range\<close> raises on a zero step and is empty on a negative one.
\<close>

function chunks :: "nat \<Rightarrow> 'a list \<Rightarrow> 'a list list" where
  "chunks n xs = (if n = 0 \<or> xs = [] then [] else take n xs # chunks n (drop n xs))"
  by pat_completeness auto
termination
  by (relation "measure (\<lambda>(n, xs). length xs)") auto

declare chunks.simps [simp del]

definition encode_texts :: "(string list \<Rightarrow> 'v list) \<Rightarrow> int \<Rightarrow> string list \<Rightarrow> error + 'v list" where
  "encode_texts enc batch_size texts =
     (if batch_size = 0 then Inl ValueError
      else (let embeddings = (if batch_size < 0 then [] else map enc (chunks (nat batch_size) texts))
            in if embeddings = [] then Inl ValueError
               else Inr (concat embeddings)))"

text \<open>
  A \<^verbatim>\<open>FAISSIndex\<close> object. \<open>index\<close> is \<open>None\<close> before any build or load; a flat index
  is the list of the vectors added to it, in order.
\<close>

record ('v, 'a) faiss_index =
  index :: "'v list option"
  ids :: "string list"
  metadata :: "'a json_object list"

definition new_index :: "('v, 'a) faiss_index" where
  "new_index = \<lparr> index = None, ids = [], metadata = [] \<rparr>"

text \<open>
  \<^verbatim>\<open>build\<close>, on the documents read from the documents file. The three fields are
  assigned only after every step that can raise.
\<close>

definition build ::
  "(string list \<Rightarrow> 'v list) \<Rightarrow> int \<Rightarrow> 'a document list \<Rightarrow> ('v, 'a) faiss_index
     \<Rightarrow> error + ('v, 'a) faiss_index" where
  "build enc batch_size documents self =
     (if documents = [] then Inl ValueError
      else (let (idl, texts, metas) = prepare_items documents
            in case encode_texts enc batch_size texts of
                 Inl e \<Rightarrow> Inl e
               | Inr embeddings \<Rightarrow>
                   Inr (self\<lparr> index := Some embeddings, ids := idl, metadata := metas \<rparr>)))"

text \<open>
  The three persisted artifacts: the serialized index, the id sequence, and the
  metadata file, whose content is its bytes (UTF-8). \<open>None\<close> is an absent file.
\<close>

record 'v files =
  index_file :: "'v list option"
  ids_file :: "string list option"
  meta_file :: "string option"



text \<open>
  Iterating over a text file: the lines, each with its terminator, where \<^verbatim>\<open>\r\<close> and
  \<^verbatim>\<open>\r\n\<close> are read as \<^verbatim>\<open>\n\<close> (universal newlines). In UTF-8 the bytes \<open>0x0A\<close>
  and \<open>0x0D\<close> are these two characters and occur in no other, so the lines are cut on
  the bytes. \<open>cur\<close> is the current line, reversed.
\<close>

fun text_lines :: "string \<Rightarrow> string \<Rightarrow> string list" where
  "text_lines cur [] = (if cur = [] then [] else [rev cur])"
| "text_lines cur (c # cs) =
     (if c = CHR 0x0A then rev (CHR 0x0A # cur) # text_lines [] cs
      else if c = CHR 0x0D
      then (case cs of
              [] \<Rightarrow> [rev (CHR 0x0A # cur)]
            | d # ds \<Rightarrow> if d = CHR 0x0A then rev (CHR 0x0A # cur) # text_lines [] ds
                        else rev (CHR 0x0A # cur) # text_lines [] cs)
      else text_lines (c # cur) cs)"

text \<open>
  The loop of \<^verbatim>\<open>load\<close> over the metadata file: \<open>loads\<close> is \<^verbatim>\<open>json.loads\<close> on a
  decoded line, and a line it rejects raises with the objects appended so far left in
  place.
\<close>

fun load_lines ::
  "(string \<Rightarrow> 'a json_object option) \<Rightarrow> string list \<Rightarrow> 'a json_object list
     \<Rightarrow> error option \<times> 'a json_object list" where
  "load_lines loads [] acc = (None, acc)"
| "load_lines loads (l # ls) acc =
     (case loads l of
        None \<Rightarrow> (Some JSONDecodeError, acc)
      | Some m \<Rightarrow> load_lines loads ls (acc @ [m]))"

text \<open>
  \<^verbatim>\<open>load\<close>. The result is the exception raised, if any, and the object as the call
  leaves it: the fields are assigned one after the other, so a failure after the first
  assignment leaves a partly loaded object.
\<close>

definition load ::
  "(string \<Rightarrow> 'a json_object option) \<Rightarrow> 'v files \<Rightarrow> ('v, 'a) faiss_index
     \<Rightarrow> error option \<times> ('v, 'a) faiss_index" where
  "load loads fs self =
     (case index_file fs of
        None \<Rightarrow> (Some FileNotFoundError, self)
      | Some ix \<Rightarrow>
          (let self1 = self\<lparr> index := Some ix \<rparr>
           in case ids_file fs of
                None \<Rightarrow> (Some FileNotFoundError, self1)
              | Some idl \<Rightarrow>
                  (let self2 = self1\<lparr> ids := idl, metadata := [] \<rparr>
                   in case meta_file fs of
                        None \<Rightarrow> (Some FileNotFoundError, self2)
                      | Some content \<Rightarrow>
                          (let (err, metas) = load_lines loads (text_lines [] content) []
                           in (err, self2\<lparr> metadata := metas \<rparr>)))))"

text \<open>
  \<^verbatim>\<open>search\<close>. \<open>isearch\<close> is the library's \<^verbatim>\<open>index.search\<close> on one query: the
  \<open>(score, position)\<close> pairs of its first result row, a position \<open>-1\<close> meaning "no
  match". \<^verbatim>\<open>self.metadata[idx]\<close> raises when the metadata list is shorter than the id
  list.
\<close>

fun collect_hits :: "string list \<Rightarrow> 'm list \<Rightarrow> ('s \<times> int) list \<Rightarrow> error + ('s, 'm) hit list" where
  "collect_hits idl metas [] = Inr []"
| "collect_hits idl metas ((score, idx) # rest) =
     (if idx < 0 \<or> int (length idl) \<le> idx then collect_hits idl metas rest
      else if length metas \<le> nat idx then Inl IndexError
      else (case collect_hits idl metas rest of
              Inl e \<Rightarrow> Inl e
            | Inr results \<Rightarrow>
                Inr (\<lparr> hit_id = idl ! nat idx, hit_score = score,
                       hit_metadata = metas ! nat idx \<rparr> # results)))"

definition search ::
  "('v list \<Rightarrow> 'q \<Rightarrow> int \<Rightarrow> ('s::linorder \<times> int) list) \<Rightarrow> ('v, 'a) faiss_index \<Rightarrow> 'q \<Rightarrow> int
     \<Rightarrow> error + ('s, 'a json_object) hit list" where
  "search isearch self query_embedding top_k =
     (case index self of
        None \<Rightarrow> Inl RuntimeError
      | Some ix \<Rightarrow>
          (case collect_hits (ids self) (metadata self) (isearch ix query_embedding top_k) of
             Inl e \<Rightarrow> Inl e
           | Inr results \<Rightarrow> Inr (sort_desc hit_score results)))"

text \<open>
  The positions of a result row that are matches (not the sentinel, and inside the id
  list), and the hit a match resolves to.
\<close>

definition valid_position :: "string list \<Rightarrow> 's \<times> int \<Rightarrow> bool" where
  "valid_position idl p = (0 \<le> snd p \<and> snd p < int (length idl))"

definition hit_at :: "string list \<Rightarrow> 'm list \<Rightarrow> 's \<times> int \<Rightarrow> ('s, 'm) hit" where
  "hit_at idl metas p =
     \<lparr> hit_id = idl ! nat (snd p), hit_score = fst p, hit_metadata = metas ! nat (snd p) \<rparr>"

text \<open>
  A stand-in for the library's exact inner-product search, on integer vectors: the
  \<open>top_k\<close> best positions by descending inner product, padded with the sentinel
  position \<open>-1\<close> (and the score \<open>pad\<close>) when the index holds fewer vectors. It
  instantiates the \<open>isearch\<close> parameter in examples.
\<close>

definition inner_product :: "int list \<Rightarrow> int list \<Rightarrow> int" where
  "inner_product a b = sum_list (map2 (*) a b)"

definition flat_ip_search :: "int \<Rightarrow> int list list \<Rightarrow> int list \<Rightarrow> int \<Rightarrow> (int \<times> int) list" where
  "flat_ip_search pad vecs q top_k =
     (let scored = sort_desc fst (map (\<lambda>(i, v). (inner_product v q, int i)) (enumerate 0 vecs))
      in take (nat top_k) scored @ replicate (nat top_k - length scored) (pad, - 1))"

section \<open>The index subsystem as a state machine\<close>































section \<open>Normalizer (data_processing.py, config.py)\<close>

text \<open>
  A table cell is a missing value (NaN, \<^verbatim>\<open>None\<close>) or a value, which the normalizer
  only ever reads through \<^verbatim>\<open>str()\<close>: \<open>Val s\<close> is a raw value whose string form is
  \<open>s\<close>. A table is a data frame: a number of rows and an ordered list of labelled
  columns.
\<close>

datatype cell = NA | Val string

record table =
  nrows :: nat
  cols :: "(string \<times> cell list) list"

definition labels :: "table \<Rightarrow> string list" where
  "labels t = map fst (cols t)"

definition wf_table :: "table \<Rightarrow> bool" where
  "wf_table t = list_all (\<lambda>c. length (snd c) = nrows t) (cols t)"

datatype pd_error = KeyError string | RepeatedLabel string

text \<open>
  \<^verbatim>\<open>df[name]\<close>. A label that occurs once selects a series. A label that occurs more
  than once selects a frame; the normalizer's steps are written for a series, and on a
  frame pandas raises (a length mismatch on assignment, or "cannot assemble with
  duplicate keys") except in corner cases where it overwrites the repeated columns. The
  model stops with \<open>RepeatedLabel\<close> there.
\<close>

definition get_col :: "string \<Rightarrow> table \<Rightarrow> pd_error + cell list" where
  "get_col name t =
     (case filter (\<lambda>c. fst c = name) (cols t) of
        [] \<Rightarrow> Inl (KeyError name)
      | [c] \<Rightarrow> Inr (snd c)
      | _ \<Rightarrow> Inl (RepeatedLabel name))"

text \<open>\<^verbatim>\<open>df[name] = values\<close>: replaces the column in place, or appends a new one.\<close>

definition set_col :: "string \<Rightarrow> cell list \<Rightarrow> table \<Rightarrow> table" where
  "set_col name vals t =
     (if name \<in> set (labels t)
      then t\<lparr> cols := map (\<lambda>c. if fst c = name then (name, vals) else c) (cols t) \<rparr>
      else t\<lparr> cols := cols t @ [(name, vals)] \<rparr>)"

definition REQUIRED_COLUMNS :: "string list" where
  "REQUIRED_COLUMNS =
     [''ticket_id'', ''issue'', ''description'', ''resolution'', ''category'', ''resolved'']"

text \<open>\<^verbatim>\<open>col.strip().lower().replace(" ", "_")\<close>\<close>

definition normalize_label :: "string \<Rightarrow> string" where
  "normalize_label col = map (\<lambda>c. if c = CHR '' '' then CHR ''_'' else c) (lower (strip col))"

text \<open>
  \<^verbatim>\<open>_normalize_columns\<close>: the labels are rewritten, then every required label that
  is absent gets a column of empty strings.
\<close>

definition ensure_col :: "table \<Rightarrow> string \<Rightarrow> table" where
  "ensure_col t col =
     (if col \<in> set (labels t) then t
      else t\<lparr> cols := cols t @ [(col, replicate (nrows t) (Val []))] \<rparr>)"

definition normalize_columns :: "table \<Rightarrow> table" where
  "normalize_columns t =
     foldl ensure_col (t\<lparr> cols := map (\<lambda>c. (normalize_label (fst c), snd c)) (cols t) \<rparr>)
       REQUIRED_COLUMNS"

text \<open>
  \<^verbatim>\<open>str(n)\<close> of a non-negative integer, and \<^verbatim>\<open>re.search(r"(\d+)", s)\<close>: the
  leftmost match of a greedy digit run, empty when there is no digit.
\<close>

definition digit_of :: "nat \<Rightarrow> char" where
  "digit_of d = ''0123456789'' ! d"

function str_nat :: "nat \<Rightarrow> string" where
  "str_nat n = (if n < 10 then [digit_of n] else str_nat (n div 10) @ [digit_of (n mod 10)])"
  by pat_completeness auto
termination
  by (relation "measure id") auto

declare str_nat.simps [simp del]

definition first_digit_run :: "string \<Rightarrow> string" where
  "first_digit_run s = takeWhile digit_char (dropWhile (\<lambda>c. \<not> digit_char c) s)"

text \<open>\<^verbatim>\<open>normalize_id\<close> and \<^verbatim>\<open>_normalize_ticket_ids\<close>.\<close>

definition normalize_id :: "cell \<Rightarrow> nat \<Rightarrow> string" where
  "normalize_id v i =
     (let s = (case v of NA \<Rightarrow> [] | Val x \<Rightarrow> strip x);
          num = first_digit_run s
      in if num \<noteq> [] then ''TCKT-'' @ num else ''TCKT-'' @ str_nat (100000 + i))"

definition fillna_empty :: "cell \<Rightarrow> cell" where
  "fillna_empty v = (case v of NA \<Rightarrow> Val [] | Val x \<Rightarrow> Val x)"

definition normalize_id_column :: "cell list \<Rightarrow> cell list" where
  "normalize_id_column vs =
     map (\<lambda>p. Val (normalize_id (snd p) (fst p))) (enumerate 0 (map fillna_empty vs))"

definition normalize_ticket_ids :: "table \<Rightarrow> pd_error + table" where
  "normalize_ticket_ids t =
     (case get_col ''ticket_id'' t of
        Inl e \<Rightarrow> Inl e
      | Inr vs \<Rightarrow> Inr (set_col ''ticket_id'' (normalize_id_column vs) t))"

text \<open>
  \<^verbatim>\<open>_normalize_dates\<close>. \<open>to_dates\<close> stands for the pandas pipeline
  \<^verbatim>\<open>to_datetime(..., errors="coerce")\<close>, \<^verbatim>\<open>strftime("%Y-%m-%d")\<close>, \<^verbatim>\<open>fillna("")\<close> on
  a column: one string per row, a canonical date or the empty string.
\<close>

definition normalize_dates :: "(cell list \<Rightarrow> string list) \<Rightarrow> table \<Rightarrow> pd_error + table" where
  "normalize_dates to_dates t =
     (if ''date'' \<in> set (labels t)
      then (case get_col ''date'' t of
              Inl e \<Rightarrow> Inl e
            | Inr vs \<Rightarrow> Inr (set_col ''date'' (map Val (to_dates vs)) t))
      else Inr (set_col ''date'' (replicate (nrows t) (Val [])) t))"

definition dates_contract :: "(cell list \<Rightarrow> string list) \<Rightarrow> bool" where
  "dates_contract to_dates =
     (\<forall>vs. length (to_dates vs) = length vs \<and> list_all (\<lambda>d. d = [] \<or> iso_date d) (to_dates vs))"

text \<open>\<^verbatim>\<open>_create_embedding_text\<close>; \<^verbatim>\<open>fillna("").astype(str)\<close> is \<open>as_str\<close> on a cell.\<close>

definition as_str :: "cell \<Rightarrow> string" where
  "as_str v = (case v of NA \<Rightarrow> [] | Val x \<Rightarrow> x)"

definition embedding_text :: "string \<Rightarrow> string \<Rightarrow> string" where
  "embedding_text issue description = ''Issue: '' @ issue @ '' - '' @ ''Description: '' @ description"

definition embedding_column :: "cell list \<Rightarrow> cell list \<Rightarrow> cell list" where
  "embedding_column iss des = map2 (\<lambda>i d. Val (embedding_text (as_str i) (as_str d))) iss des"

definition create_embedding_text :: "table \<Rightarrow> pd_error + table" where
  "create_embedding_text t =
     (case get_col ''issue'' t of
        Inl e \<Rightarrow> Inl e
      | Inr iss \<Rightarrow>
          (let t1 = set_col ''issue'' (map (\<lambda>v. Val (as_str v)) iss) t
           in case get_col ''description'' t1 of
                Inl e \<Rightarrow> Inl e
              | Inr des \<Rightarrow>
                  (let t2 = set_col ''description'' (map (\<lambda>v. Val (as_str v)) des) t1
                   in Inr (set_col ''embedding_text'' (embedding_column iss des) t2))))"

text \<open>The four steps of \<^verbatim>\<open>unify_tickets\<close> on the combined table, in sequence.\<close>

definition normalizer :: "(cell list \<Rightarrow> string list) \<Rightarrow> table \<Rightarrow> pd_error + table" where
  "normalizer to_dates t =
     (case normalize_ticket_ids (normalize_columns t) of
        Inl e \<Rightarrow> Inl e
      | Inr t1 \<Rightarrow>
          (case normalize_dates to_dates t1 of
             Inl e \<Rightarrow> Inl e
           | Inr t2 \<Rightarrow> create_embedding_text t2))"

text \<open>
  An already normalized table: well formed, with pairwise distinct canonical labels
  that include the required ones, \<^verbatim>\<open>date\<close> and \<^verbatim>\<open>embedding_text\<close>; ids of the form
  \<^verbatim>\<open>TCKT-<digits>\<close>; dates that are empty or canonical; issue and description
  strings; and the embedding text derived from them.
\<close>

definition tckt_cell :: "cell \<Rightarrow> bool" where
  "tckt_cell v =
     (case v of
        NA \<Rightarrow> False
      | Val s \<Rightarrow> take 5 s = ''TCKT-'' \<and> drop 5 s \<noteq> [] \<and> list_all digit_char (drop 5 s))"

definition date_cell :: "cell \<Rightarrow> bool" where
  "date_cell v = (case v of NA \<Rightarrow> False | Val d \<Rightarrow> d = [] \<or> iso_date d)"

definition str_cell :: "cell \<Rightarrow> bool" where
  "str_cell v = (case v of NA \<Rightarrow> False | Val x \<Rightarrow> True)"

definition normalized_table :: "table \<Rightarrow> bool" where
  "normalized_table t =
     (wf_table t \<and> distinct (labels t)
      \<and> list_all (\<lambda>l. normalize_label l = l) (labels t)
      \<and> list_all (\<lambda>c. c \<in> set (labels t)) REQUIRED_COLUMNS
      \<and> (case get_col ''ticket_id'' t of Inl e \<Rightarrow> False | Inr idc \<Rightarrow> list_all tckt_cell idc)
      \<and> (case get_col ''date'' t of Inl e \<Rightarrow> False | Inr dts \<Rightarrow> list_all date_cell dts)
      \<and> (case get_col ''issue'' t of
            Inl e \<Rightarrow> False
          | Inr iss \<Rightarrow>
              (case get_col ''description'' t of
                 Inl e \<Rightarrow> False
               | Inr des \<Rightarrow>
                   list_all str_cell iss \<and> list_all str_cell des
                   \<and> get_col ''embedding_text'' t = Inr (embedding_column iss des))))"

section \<open>Vector Index: search\<close>

lemma set_insort_desc: "set (insort_desc key x ys) = insert x (set ys)"
  by (induction ys) auto

lemma length_insort_desc: "length (insort_desc key x ys) = Suc (length ys)"
  by (induction ys) auto

lemma length_sort_desc: "length (sort_desc key xs) = length xs"
  by (induction xs) (simp_all add: sort_desc_def length_insort_desc)

lemma set_sort_desc: "set (sort_desc key xs) = set xs"
  by (induction xs) (simp_all add: sort_desc_def set_insort_desc)

lemma sorted_insort_desc:
  "sorted_wrt (\<lambda>a b. key b \<le> key a) ys \<Longrightarrow> sorted_wrt (\<lambda>a b. key b \<le> key a) (insort_desc key x ys)"
  by (induction ys) (auto simp: set_insort_desc)

lemma sorted_sort_desc: "sorted_wrt (\<lambda>a b. key b \<le> key a) (sort_desc key xs)"
  by (induction xs) (simp_all add: sort_desc_def sorted_insort_desc)

lemma collect_hits_aligned:
  "length idl \<le> length metas \<Longrightarrow>
   collect_hits idl metas raw = Inr (map (hit_at idl metas) (filter (valid_position idl) raw))"
  by (induction raw) (auto simp: valid_position_def hit_at_def)

lemma collect_hits_Inr:
  "collect_hits idl metas raw = Inr rs \<Longrightarrow>
   rs = map (hit_at idl metas) (filter (valid_position idl) raw)"
  by (induction raw arbitrary: rs) (auto simp: valid_position_def hit_at_def split: if_splits sum.splits)

lemma collect_hits_Inl:
  "collect_hits idl metas raw = Inl e \<Longrightarrow>
   e = IndexError \<and> (\<exists>p \<in> set raw. valid_position idl p \<and> length metas \<le> nat (snd p))"
  by (induction raw) (auto simp: valid_position_def split: if_splits sum.splits)

text \<open>
  Claim C1. On an index that is built or loaded (\<open>index self\<close> is not \<open>None\<close>), where
  the library's search returns at most \<open>top_k\<close> pairs: whenever the id list is no
  longer than the metadata list, \<^verbatim>\<open>search\<close> returns the matches of the row, resolved
  and re-sorted by descending score; whatever it returns has as many results as the row
  has matches, hence at most \<open>top_k\<close>, consists of the hits of the non-negative
  in-range positions only, and is non-increasing in score; and the only way to fail is a
  valid position beyond the end of a shorter metadata list, never the sentinel.
\<close>

theorem search_results_bounded_filtered_sorted:
  assumes "index self = Some ix"
    and "length (isearch ix q top_k) \<le> nat top_k"
  shows "(length (ids self) \<le> length (metadata self) \<longrightarrow>
            search isearch self q top_k =
              Inr (sort_desc hit_score (map (hit_at (ids self) (metadata self))
                     (filter (valid_position (ids self)) (isearch ix q top_k)))))
       \<and> (\<forall>rs. search isearch self q top_k = Inr rs \<longrightarrow>
            length rs = length (filter (valid_position (ids self)) (isearch ix q top_k))
            \<and> length rs \<le> nat top_k
            \<and> set rs = hit_at (ids self) (metadata self) `
                 {p \<in> set (isearch ix q top_k). 0 \<le> snd p \<and> snd p < int (length (ids self))}
            \<and> sorted_wrt (\<lambda>a b. hit_score b \<le> hit_score a) rs)
       \<and> (\<forall>e. search isearch self q top_k = Inl e \<longrightarrow>
            (\<exists>p \<in> set (isearch ix q top_k). 0 \<le> snd p \<and> snd p < int (length (ids self))
                \<and> length (metadata self) \<le> nat (snd p)))"
proof (intro conjI impI allI)
  assume "length (ids self) \<le> length (metadata self)"
  then show "search isearch self q top_k =
      Inr (sort_desc hit_score (map (hit_at (ids self) (metadata self))
             (filter (valid_position (ids self)) (isearch ix q top_k))))"
    using assms(1) by (simp add: search_def collect_hits_aligned)
next
  fix rs assume r: "search isearch self q top_k = Inr rs"
  then obtain rs0 where c: "collect_hits (ids self) (metadata self) (isearch ix q top_k) = Inr rs0"
    and rs: "rs = sort_desc hit_score rs0"
    using assms(1) by (auto simp: search_def split: sum.splits)
  note rs0 = collect_hits_Inr[OF c]
  show "length rs = length (filter (valid_position (ids self)) (isearch ix q top_k))"
    by (simp add: rs rs0 length_sort_desc)
  have "length rs \<le> length (isearch ix q top_k)"
    by (simp add: rs rs0 length_sort_desc)
  then show "length rs \<le> nat top_k" using assms(2) by linarith
  show "set rs = hit_at (ids self) (metadata self) `
                 {p \<in> set (isearch ix q top_k). 0 \<le> snd p \<and> snd p < int (length (ids self))}"
    by (auto simp: rs rs0 set_sort_desc valid_position_def)
  show "sorted_wrt (\<lambda>a b. hit_score b \<le> hit_score a) rs"
    by (simp add: rs sorted_sort_desc)
next
  fix e assume "search isearch self q top_k = Inl e"
  then have "collect_hits (ids self) (metadata self) (isearch ix q top_k) = Inl e"
    using assms(1) by (auto simp: search_def split: sum.splits)
  from collect_hits_Inl[OF this]
  show "\<exists>p \<in> set (isearch ix q top_k). 0 \<le> snd p \<and> snd p < int (length (ids self))
                \<and> length (metadata self) \<le> nat (snd p)"
    by (auto simp: valid_position_def)
qed

text \<open>The stand-in search returns exactly \<open>top_k\<close> pairs, as the library does.\<close>

lemma flat_ip_search_length: "length (flat_ip_search pad vecs q top_k) = nat top_k"
  by (simp add: flat_ip_search_def Let_def)

lemma flat_ip_search_example: "flat_ip_search (- 1000) [[1, 0], [0, 1]] [2, 1] 3 = [(2, 0), (1, 1), (- 1000, - 1)]"
  by (simp add: flat_ip_search_def inner_product_def sort_desc_def enumerate_eq_zip)

theorem search_results_bounded_filtered_sorted_witness:
  "search (flat_ip_search (- 1000))
      \<lparr> index = Some [[1, 0], [0, 1]], ids = [''TCKT-1'', ''TCKT-2''],
        metadata = [[(''category'', ''vpn'')], [(''category'', ''printer'')]] \<rparr> [2, 1] 3
    = Inr [\<lparr> hit_id = ''TCKT-1'', hit_score = 2, hit_metadata = [(''category'', ''vpn'')] \<rparr>,
           \<lparr> hit_id = ''TCKT-2'', hit_score = 1, hit_metadata = [(''category'', ''printer'')] \<rparr>]
   \<and> search (\<lambda>ix q k. [(1, 0), (5, - 1), (3, 1)])
      \<lparr> index = Some [[1, 0], [0, 1 :: int]], ids = [''TCKT-1'', ''TCKT-2''],
        metadata = [[(''category'', ''vpn'')], [(''category'', ''printer'')]] \<rparr> [2 :: int, 1] 3
    = Inr [\<lparr> hit_id = ''TCKT-2'', hit_score = 3 :: int, hit_metadata = [(''category'', ''printer'')] \<rparr>,
           \<lparr> hit_id = ''TCKT-1'', hit_score = 1, hit_metadata = [(''category'', ''vpn'')] \<rparr>]"
proof -
  let ?S = "\<lparr> index = Some [[1, 0], [0, 1 :: int]], ids = [''TCKT-1'', ''TCKT-2''],
        metadata = [[(''category'', ''vpn'')], [(''category'', ''printer'')]] \<rparr>"
  have i: "index ?S = Some [[1, 0], [0, 1]]" by simp
  have l1: "length (flat_ip_search (- 1000) [[1, 0], [0, 1]] [2, 1] 3) \<le> nat 3"
    by (simp add: flat_ip_search_example)
  have l2: "length ((\<lambda>ix q k. [(1 :: int, 0 :: int), (5, - 1), (3, 1)]) [[1, 0], [0, 1 :: int]] [2 :: int, 1] (3 :: int)) \<le> nat 3"
    by simp
  have a: "length (ids ?S) \<le> length (metadata ?S)" by simp
  from search_results_bounded_filtered_sorted
         [where isearch = "flat_ip_search (- 1000)" and self = ?S and q = "[2, 1]" and top_k = 3, OF i l1] a
  have "search (flat_ip_search (- 1000)) ?S [2, 1] 3 =
      Inr (sort_desc hit_score (map (hit_at (ids ?S) (metadata ?S))
             (filter (valid_position (ids ?S)) (flat_ip_search (- 1000) [[1, 0], [0, 1]] [2, 1] 3))))"
    by blast
  then have r1: "search (flat_ip_search (- 1000)) ?S [2, 1] 3
    = Inr [\<lparr> hit_id = ''TCKT-1'', hit_score = 2, hit_metadata = [(''category'', ''vpn'')] \<rparr>,
           \<lparr> hit_id = ''TCKT-2'', hit_score = 1, hit_metadata = [(''category'', ''printer'')] \<rparr>]"
    by (simp add: flat_ip_search_example valid_position_def hit_at_def sort_desc_def)
  from search_results_bounded_filtered_sorted
         [where isearch = "\<lambda>ix q k. [(1, 0), (5, - 1), (3, 1)]" and self = ?S
            and q = "[2 :: int, 1]" and top_k = 3, OF i l2] a
  have "search (\<lambda>ix q k. [(1, 0), (5, - 1), (3, 1)]) ?S [2 :: int, 1] 3 =
      Inr (sort_desc hit_score (map (hit_at (ids ?S) (metadata ?S))
             (filter (valid_position (ids ?S)) [(1 :: int, 0), (5, - 1), (3, 1)])))"
    by blast
  then have r2: "search (\<lambda>ix q k. [(1, 0), (5, - 1), (3, 1)]) ?S [2 :: int, 1] 3
    = Inr [\<lparr> hit_id = ''TCKT-2'', hit_score = 3 :: int, hit_metadata = [(''category'', ''printer'')] \<rparr>,
           \<lparr> hit_id = ''TCKT-1'', hit_score = 1, hit_metadata = [(''category'', ''vpn'')] \<rparr>]"
    by (simp add: valid_position_def hit_at_def sort_desc_def)
  from r1 r2 show ?thesis by blast
qed

section \<open>Vector Index: build\<close>

lemma prepare_items_filter:
  "prepare_items documents =
     (map get_id (filter survives documents),
      map get_text (filter survives documents),
      map get_meta (filter survives documents))"
  by (induction documents) (auto simp: survives_def)

lemma chunks_Nil_iff: "chunks n xs = [] \<longleftrightarrow> n = 0 \<or> xs = []"
  by (subst chunks.simps) simp


lemma encode_texts_empty:
  "encode_texts enc bs [] = Inl ValueError"
  by (simp add: encode_texts_def chunks_Nil_iff)

lemma encode_texts_nonempty:
  "0 < bs \<Longrightarrow> texts \<noteq> [] \<Longrightarrow>
   encode_texts enc bs texts = Inr (concat (map enc (chunks (nat bs) texts)))"
  by (simp add: encode_texts_def chunks_Nil_iff)

lemma build_no_survivor:
  assumes "filter survives documents = []"
  shows "build enc batch_size documents self =
        Inl ValueError"
  using assms by (simp add: build_def prepare_items_filter encode_texts_empty)

lemma build_with_survivor:
  assumes "filter survives documents \<noteq> []" "0 < batch_size"
  shows "build enc batch_size documents self =
        Inr (self\<lparr> index := Some (concat (map enc (chunks (nat batch_size)
                                     (map get_text (filter survives documents))))),
                  ids := map get_id (filter survives documents),
                  metadata := map get_meta (filter survives documents) \<rparr>)"
proof -
  from assms(1) have "documents \<noteq> []" by auto
  with assms show ?thesis
    by (simp add: build_def prepare_items_filter encode_texts_nonempty)
qed

lemma chunks_short: "0 < n \<Longrightarrow> xs \<noteq> [] \<Longrightarrow> length xs \<le> n \<Longrightarrow> chunks n xs = [xs]"
  by (subst chunks.simps, subst chunks.simps) simp


text \<open>
  Claim C8. When no document survives the filtering (its trimmed id or its trimmed text
  is empty), \<^verbatim>\<open>build\<close> raises \<^verbatim>\<open>ValueError\<close>: on an empty documents file from its
  own check, otherwise from \<^verbatim>\<open>encode_texts\<close>, which receives no text. It raises
  before any field of the object is assigned, so no index is constructed. When a
  document survives and the batch size is positive (it is 128 in the configuration),
  \<^verbatim>\<open>build\<close> returns with the index, ids and metadata of the surviving documents.
\<close>

theorem build_fails_iff_no_survivor:
  "(filter survives documents = [] \<longrightarrow>
      build enc batch_size documents self =
        Inl ValueError)
   \<and> (filter survives documents \<noteq> [] \<and> 0 < batch_size \<longrightarrow>
      build enc batch_size documents self =
        Inr (self\<lparr> index := Some (concat (map enc (chunks (nat batch_size)
                                     (map get_text (filter survives documents))))),
                  ids := map get_id (filter survives documents),
                  metadata := map get_meta (filter survives documents) \<rparr>))"
  using build_no_survivor [of documents enc batch_size self]
    build_with_survivor [of documents batch_size enc self]
  by blast

theorem build_fails_iff_no_survivor_witness:
  "build (map length) 128
     [\<lparr> doc_id = Some [CHR 0xA0, CHR 0x20], doc_text = Some ''Issue: Printer offline'', doc_metadata = (None :: metadata option) \<rparr>,
      \<lparr> doc_id = Some ''TCKT-3'', doc_text = None, doc_metadata = (None :: metadata option) \<rparr>]
     new_index = Inl ValueError
   \<and> build (map length) 128 [] (new_index :: (nat, string) faiss_index) = Inl ValueError
   \<and> build (map length) 128
     [\<lparr> doc_id = Some ''TCKT-1 '', doc_text = Some ''Issue: VPN drops'',
        doc_metadata = Some [(''category'', ''vpn'')] \<rparr>,
      \<lparr> doc_id = Some [CHR 0xA0, CHR 0x20], doc_text = Some ''Issue: Printer offline'', doc_metadata = (None :: metadata option) \<rparr>]
     new_index
     = Inr \<lparr> index = Some [16], ids = [''TCKT-1''], metadata = [[(''category'', ''vpn'')]] \<rparr>"
proof -
  let ?D1 = "\<lparr> doc_id = Some ''TCKT-1 '', doc_text = Some ''Issue: VPN drops'',
        doc_metadata = Some [(''category'', ''vpn'')] \<rparr>"
  let ?D2 = "\<lparr> doc_id = Some [CHR 0xA0, CHR 0x20], doc_text = Some ''Issue: Printer offline'', doc_metadata = (None :: metadata option) \<rparr>"
  let ?D3 = "\<lparr> doc_id = Some ''TCKT-3'', doc_text = None, doc_metadata = (None :: metadata option) \<rparr>"
  have s: "survives ?D1" "\<not> survives ?D2" "\<not> survives ?D3"
    by (simp_all add: survives_def get_id_def get_text_def strip_def py_isspace_def)
  have g: "get_id ?D1 = ''TCKT-1''" "get_text ?D1 = ''Issue: VPN drops''"
    "get_meta ?D1 = [(''category'', ''vpn'')]"
    by (simp_all add: get_id_def get_text_def get_meta_def strip_def py_isspace_def)
  have "filter survives [?D2, ?D3] = []" using s by simp
  with build_fails_iff_no_survivor [of "[?D2, ?D3]" "map length" 128 new_index]
  have a: "build (map length) 128 [?D2, ?D3] new_index = Inl ValueError" by simp
  from build_fails_iff_no_survivor [of "[]" "map length" 128 "new_index :: (nat, string) faiss_index"]
  have b: "build (map length) 128 [] (new_index :: (nat, string) faiss_index) = Inl ValueError"
    by simp
  have f: "filter survives [?D1, ?D2] = [?D1]" using s by simp
  then have "filter survives [?D1, ?D2] \<noteq> [] \<and> (0 :: int) < 128" by simp
  with build_fails_iff_no_survivor [of "[?D1, ?D2]" "map length" 128 new_index]
  have "build (map length) 128 [?D1, ?D2] new_index =
        Inr (new_index\<lparr> index := Some (concat (map (map length) (chunks (nat 128)
                                     (map get_text (filter survives [?D1, ?D2]))))),
                  ids := map get_id (filter survives [?D1, ?D2]),
                  metadata := map get_meta (filter survives [?D1, ?D2]) \<rparr>)"
    by blast
  then have "build (map length) 128 [?D1, ?D2] new_index =
        Inr (new_index\<lparr> index := Some (concat (map (map length) (chunks (nat 128)
                                     [''Issue: VPN drops'']))),
                  ids := [''TCKT-1''], metadata := [[(''category'', ''vpn'')]] \<rparr>)"
    by (simp only: f g list.map)
  moreover have "chunks (nat 128) [''Issue: VPN drops''] = [[''Issue: VPN drops'']]"
    by (simp add: chunks_short)
  ultimately have c: "build (map length) 128 [?D1, ?D2] new_index
     = Inr \<lparr> index = Some [16], ids = [''TCKT-1''], metadata = [[(''category'', ''vpn'')]] \<rparr>"
    by (simp add: new_index_def)
  from a b c show ?thesis by blast
qed

section \<open>Vector Index: load\<close>






section \<open>Vector Index: persistence\<close>

subsection \<open>The line codec satisfies the contract\<close>














subsection \<open>What save writes\<close>





subsection \<open>Reading back what save wrote\<close>










section \<open>Vector Index: the invariant of the reachable states\<close>









subsection \<open>A save that is cut short\<close>

text \<open>
  \<^verbatim>\<open>load\<close> appends at most one object per line of the metadata file, whatever the
  reader makes of a line.
\<close>

lemma load_lines_bound: "length (snd (load_lines loads ls acc)) \<le> length acc + length ls"
proof (induction ls arbitrary: acc)
  case Nil show ?case by simp
next
  case (Cons l ls)
  show ?case
  proof (cases "loads l")
    case None then show ?thesis by simp
  next
    case (Some m)
    with Cons[of "acc @ [m]"] show ?thesis by simp
  qed
qed

lemma load_metadata_bound:
  assumes "index_file fs = Some ix" "ids_file fs = Some idl" "meta_file fs = Some content"
  shows "ids (snd (load loads fs self)) = idl
       \<and> length (metadata (snd (load loads fs self))) \<le> length (text_lines [] content)"
  using load_lines_bound[of loads "text_lines [] content" "[]"] assms
  by (auto simp: load_def split: prod.splits)







text \<open>
  The misalignment does not depend on the reader: the file holds one line, so
  \<^verbatim>\<open>load\<close> reads at most one metadata object for the two ids, with any reader.
\<close>

lemma cut_save_any_reader:
  "ids (snd (load loads
       \<lparr> index_file = Some [[86 :: int], [80]], ids_file = Some [''TCKT-1'', ''TCKT-2''],
         meta_file = Some ''{\"note\": '' \<rparr> self)) = [''TCKT-1'', ''TCKT-2'']
   \<and> length (metadata (snd (load loads
       \<lparr> index_file = Some [[86 :: int], [80]], ids_file = Some [''TCKT-1'', ''TCKT-2''],
         meta_file = Some ''{\"note\": '' \<rparr> self))) \<le> 1"
proof -
  let ?fs = "\<lparr> index_file = Some [[86 :: int], [80]], ids_file = Some [''TCKT-1'', ''TCKT-2''],
               meta_file = Some ''{\"note\": '' \<rparr>"
  have "length (text_lines [] ''{\"note\": '') = 1" by simp
  with load_metadata_bound[of ?fs "[[86], [80]]" "[''TCKT-1'', ''TCKT-2'']" "''{\"note\": ''" loads self]
  show ?thesis by simp
qed

section \<open>Normalizer: tables\<close>

subsection \<open>Reading and writing columns\<close>

lemma nrows_set_col: "nrows (set_col name vals t) = nrows t"
  by (simp add: set_col_def)

lemma labels_set_col:
  "labels (set_col name vals t) = (if name \<in> set (labels t) then labels t else labels t @ [name])"
  by (auto simp: set_col_def labels_def comp_def intro!: map_idI)

lemma wf_set_col: "wf_table t \<Longrightarrow> length vals = nrows t \<Longrightarrow> wf_table (set_col name vals t)"
  by (auto simp: wf_table_def set_col_def list_all_iff)

lemma filter_label_distinct:
  "distinct (map fst cs) \<Longrightarrow>
   filter (\<lambda>c. fst c = name) cs = (case map_of cs name of None \<Rightarrow> [] | Some v \<Rightarrow> [(name, v)])"
proof (induction cs)
  case Nil then show ?case by simp
next
  case (Cons c cs)
  show ?case
  proof (cases "fst c = name")
    case True
    with Cons.prems have "name \<notin> fst ` set cs" by auto
    then have "filter (\<lambda>c. fst c = name) cs = []" by (auto simp: filter_empty_conv)
    with True show ?thesis by (cases c) auto
  next
    case False
    with Cons show ?thesis by (cases c) auto
  qed
qed

lemma get_col_distinct:
  "distinct (labels t) \<Longrightarrow>
   get_col name t = (case map_of (cols t) name of None \<Rightarrow> Inl (KeyError name) | Some vs \<Rightarrow> Inr vs)"
  by (simp add: get_col_def labels_def filter_label_distinct split: option.splits)

lemma get_col_present:
  "distinct (labels t) \<Longrightarrow> name \<in> set (labels t) \<Longrightarrow> \<exists>vs. get_col name t = Inr vs"
  by (auto simp: get_col_distinct labels_def map_of_eq_None_iff split: option.splits)

lemma filter_singleton_mem: "filter P cs = [c] \<Longrightarrow> c \<in> set cs \<and> P c"
proof -
  assume "filter P cs = [c]"
  then have "c \<in> set (filter P cs)" by simp
  then show ?thesis by simp
qed

lemma filter_upd_same:
  "filter (\<lambda>c. fst c = name) (map (\<lambda>c. if fst c = name then (name, vals) else c) cs)
     = map (\<lambda>c. (name, vals)) (filter (\<lambda>c. fst c = name) cs)"
  by (induction cs) auto

lemma filter_upd_other:
  "name' \<noteq> name \<Longrightarrow>
   filter (\<lambda>c. fst c = name') (map (\<lambda>c. if fst c = name then (name, vals) else c) cs)
     = filter (\<lambda>c. fst c = name') cs"
  by (induction cs) auto

lemma get_col_length:
  "wf_table t \<Longrightarrow> get_col name t = Inr vs \<Longrightarrow> length vs = nrows t"
proof -
  assume wf: "wf_table t" and g: "get_col name t = Inr vs"
  from g obtain c where "filter (\<lambda>c. fst c = name) (cols t) = [c]" "snd c = vs"
    by (auto simp: get_col_def split: list.splits)
  then have "c \<in> set (cols t)" using filter_singleton_mem by fastforce
  with wf \<open>snd c = vs\<close> show ?thesis by (auto simp: wf_table_def list_all_iff)
qed

lemma get_col_in_labels: "get_col name t = Inr vs \<Longrightarrow> name \<in> set (labels t)"
proof -
  assume "get_col name t = Inr vs"
  then obtain c where "filter (\<lambda>c. fst c = name) (cols t) = [c]"
    by (auto simp: get_col_def split: list.splits)
  then have "c \<in> set (cols t) \<and> fst c = name" by (rule filter_singleton_mem)
  then show ?thesis by (auto simp: labels_def)
qed

lemma get_col_set_col_same:
  assumes "get_col name t = Inr vs"
  shows "get_col name (set_col name vals t) = Inr vals"
proof -
  from assms obtain c where c: "filter (\<lambda>c. fst c = name) (cols t) = [c]"
    by (auto simp: get_col_def split: list.splits)
  have "filter (\<lambda>c. fst c = name) (map (\<lambda>c. if fst c = name then (name, vals) else c) (cols t))
        = [(name, vals)]"
    by (simp add: filter_upd_same c)
  then show ?thesis using get_col_in_labels[OF assms]
    by (simp add: get_col_def set_col_def)
qed

lemma get_col_set_col_other:
  "name' \<noteq> name \<Longrightarrow> get_col name' (set_col name vals t) = get_col name' t"
  by (simp add: get_col_def set_col_def filter_upd_other)

lemma get_col_set_col_new:
  "name \<notin> set (labels t) \<Longrightarrow> get_col name (set_col name vals t) = Inr vals"
proof -
  assume a: "name \<notin> set (labels t)"
  then have "filter (\<lambda>c. fst c = name) (cols t) = []"
    by (auto simp: labels_def filter_empty_conv)
  with a show ?thesis by (simp add: get_col_def set_col_def)
qed

lemma map_of_upd_other:
  "k \<noteq> name \<Longrightarrow>
   map_of (map (\<lambda>c. if fst c = name then (name, vals) else c) cs) k = map_of cs k"
  by (induction cs) auto

lemma map_of_upd_same:
  "name \<in> fst ` set cs \<Longrightarrow>
   map_of (map (\<lambda>c. if fst c = name then (name, vals) else c) cs) name = Some vals"
  by (induction cs) auto

lemma map_of_set_col:
  "map_of (cols (set_col name vals t)) k = (if k = name then Some vals else map_of (cols t) k)"
proof (cases "name \<in> set (labels t)")
  case True
  then show ?thesis
    by (simp add: set_col_def labels_def map_of_upd_other map_of_upd_same)
next
  case False
  then have "map_of (cols t) name = None" by (simp add: labels_def map_of_eq_None_iff)
  with False show ?thesis by (auto simp: set_col_def map_add_def split: option.splits)
qed

lemma distinct_set_col: "distinct (labels t) \<Longrightarrow> distinct (labels (set_col name vals t))"
  by (simp add: labels_set_col)

lemma set_labels_set_col: "set (labels (set_col name vals t)) = insert name (set (labels t))"
  by (auto simp: labels_set_col)

lemma set_col_same:
  assumes "distinct (labels t)" "map_of (cols t) name = Some vals"
  shows "set_col name vals t = t"
proof -
  have in_l: "name \<in> set (labels t)"
    using assms(2) by (force simp: labels_def dest: map_of_SomeD)
  have "map (\<lambda>c. if fst c = name then (name, vals) else c) (cols t) = cols t"
  proof (rule map_idI)
    fix c assume c: "c \<in> set (cols t)"
    show "(if fst c = name then (name, vals) else c) = c"
    proof (cases "fst c = name")
      case True
      then have "(name, snd c) \<in> set (cols t)" using c by (metis prod.collapse)
      then have "map_of (cols t) name = Some (snd c)"
        using assms(1) by (simp add: labels_def)
      with assms(2) True show ?thesis by (cases c) auto
    next
      case False then show ?thesis by simp
    qed
  qed
  with in_l show ?thesis by (simp add: set_col_def)
qed

lemma get_col_map_of:
  "distinct (labels t) \<Longrightarrow> get_col name t = Inr vs \<longleftrightarrow> map_of (cols t) name = Some vs"
  by (auto simp: get_col_distinct split: option.splits)

subsection \<open>Column normalization\<close>

lemma nrows_ensure_col: "nrows (ensure_col t c) = nrows t"
  by (simp add: ensure_col_def)

lemma nrows_foldl_ensure: "nrows (foldl ensure_col t cs) = nrows t"
  by (induction cs arbitrary: t) (simp_all add: nrows_ensure_col)

lemma wf_ensure_col: "wf_table t \<Longrightarrow> wf_table (ensure_col t c)"
  by (auto simp: ensure_col_def wf_table_def)

lemma wf_foldl_ensure: "wf_table t \<Longrightarrow> wf_table (foldl ensure_col t cs)"
  by (induction cs arbitrary: t) (simp_all add: wf_ensure_col)

lemma labels_ensure_col:
  "labels (ensure_col t c) = (if c \<in> set (labels t) then labels t else labels t @ [c])"
  by (simp add: ensure_col_def labels_def)

lemma set_labels_foldl_ensure: "set (labels (foldl ensure_col t cs)) = set (labels t) \<union> set cs"
  by (induction cs arbitrary: t) (auto simp: labels_ensure_col)

lemma distinct_foldl_ensure: "distinct (labels t) \<Longrightarrow> distinct (labels (foldl ensure_col t cs))"
  by (induction cs arbitrary: t) (simp_all add: labels_ensure_col)

lemma map_of_ensure_col:
  "map_of (cols (ensure_col t c)) k =
     (if k = c \<and> c \<notin> set (labels t) then Some (replicate (nrows t) (Val [])) else map_of (cols t) k)"
proof (cases "c \<in> set (labels t)")
  case True then show ?thesis by (simp add: ensure_col_def)
next
  case False
  then have "map_of (cols t) c = None" by (simp add: labels_def map_of_eq_None_iff)
  with False show ?thesis by (auto simp: ensure_col_def map_add_def split: option.splits)
qed

lemma map_of_foldl_ensure:
  "map_of (cols (foldl ensure_col t cs)) k =
     (if k \<in> set cs \<and> k \<notin> set (labels t) then Some (replicate (nrows t) (Val []))
      else map_of (cols t) k)"
proof (induction cs arbitrary: t)
  case Nil then show ?case by simp
next
  case (Cons c cs)
  show ?case
    by (auto simp: Cons.IH map_of_ensure_col nrows_ensure_col labels_ensure_col)
qed

lemma nrows_normalize_columns: "nrows (normalize_columns t) = nrows t"
  by (simp add: normalize_columns_def nrows_foldl_ensure)

lemma wf_normalize_columns: "wf_table t \<Longrightarrow> wf_table (normalize_columns t)"
  unfolding normalize_columns_def
  by (rule wf_foldl_ensure) (simp add: wf_table_def list_all_iff)

lemma labels_renamed:
  "labels (t\<lparr> cols := map (\<lambda>c. (normalize_label (fst c), snd c)) (cols t) \<rparr>)
     = map normalize_label (labels t)"
  by (simp add: labels_def comp_def)

lemma set_labels_normalize_columns:
  "set (labels (normalize_columns t))
     = set (map normalize_label (labels t)) \<union> set REQUIRED_COLUMNS"
  by (simp only: normalize_columns_def set_labels_foldl_ensure labels_renamed)

lemma distinct_normalize_columns:
  "distinct (map normalize_label (labels t)) \<Longrightarrow> distinct (labels (normalize_columns t))"
  unfolding normalize_columns_def
  by (rule distinct_foldl_ensure) (simp only: labels_renamed)

lemma missing_required_created:
  assumes "c \<in> set REQUIRED_COLUMNS" "c \<notin> set (map normalize_label (labels t))"
  shows "map_of (cols (normalize_columns t)) c = Some (replicate (nrows t) (Val []))"
  using assms by (simp add: normalize_columns_def map_of_foldl_ensure labels_renamed)

lemma column_of_label:
  assumes "wf_table t" "distinct (labels t)" "name \<in> set (labels t)"
  obtains vs where "map_of (cols t) name = Some vs" "get_col name t = Inr vs"
    "length vs = nrows t"
proof -
  from get_col_present[OF assms(2,3)] obtain vs where g: "get_col name t = Inr vs" by blast
  then have "map_of (cols t) name = Some vs" using assms(2) by (simp add: get_col_map_of)
  moreover have "length vs = nrows t" using assms(1) g by (rule get_col_length)
  ultimately show ?thesis using g that by blast
qed

lemma normalize_ticket_ids_good:
  assumes "wf_table t" "distinct (labels t)" "''ticket_id'' \<in> set (labels t)"
  obtains vs where "map_of (cols t) ''ticket_id'' = Some vs" "length vs = nrows t"
    "normalize_ticket_ids t = Inr (set_col ''ticket_id'' (normalize_id_column vs) t)"
proof -
  from column_of_label[OF assms] obtain vs where
    "map_of (cols t) ''ticket_id'' = Some vs" "get_col ''ticket_id'' t = Inr vs"
    "length vs = nrows t" by blast
  then show ?thesis using that by (simp add: normalize_ticket_ids_def)
qed

lemma normalize_dates_good:
  assumes "wf_table t" "distinct (labels t)" "dates_contract to_dates"
  obtains X where "length X = nrows t" "list_all date_cell X"
    "normalize_dates to_dates t = Inr (set_col ''date'' X t)"
    "\<And>vs. map_of (cols t) ''date'' = Some vs \<Longrightarrow> X = map Val (to_dates vs)"
proof (cases "''date'' \<in> set (labels t)")
  case True
  from column_of_label[OF assms(1,2) True] obtain vs where
    vs: "map_of (cols t) ''date'' = Some vs" "get_col ''date'' t = Inr vs"
    "length vs = nrows t" by blast
  let ?X = "map Val (to_dates vs)"
  have "length ?X = nrows t" using assms(3) vs(3) by (simp add: dates_contract_def)
  moreover have "list_all date_cell ?X"
    using assms(3) by (auto simp: dates_contract_def list_all_iff date_cell_def)
  moreover have "normalize_dates to_dates t = Inr (set_col ''date'' ?X t)"
    using True vs(2) by (simp add: normalize_dates_def)
  ultimately show ?thesis using that vs(1) by auto
next
  case False
  let ?X = "replicate (nrows t) (Val [])"
  have "map_of (cols t) ''date'' = None"
    using False by (simp add: labels_def map_of_eq_None_iff)
  moreover have "list_all date_cell ?X" by (simp add: list_all_iff date_cell_def)
  moreover have "normalize_dates to_dates t = Inr (set_col ''date'' ?X t)"
    using False by (simp add: normalize_dates_def)
  ultimately show ?thesis using that[of ?X] by simp
qed

lemma length_embedding_column:
  "length iss = n \<Longrightarrow> length des = n \<Longrightarrow> length (embedding_column iss des) = n"
  by (simp add: embedding_column_def)

lemma create_embedding_text_good:
  assumes "wf_table t" "distinct (labels t)" "''issue'' \<in> set (labels t)"
    "''description'' \<in> set (labels t)"
  obtains iss des where "map_of (cols t) ''issue'' = Some iss"
    "map_of (cols t) ''description'' = Some des" "length iss = nrows t" "length des = nrows t"
    "create_embedding_text t =
       Inr (set_col ''embedding_text'' (embedding_column iss des)
             (set_col ''description'' (map (\<lambda>v. Val (as_str v)) des)
               (set_col ''issue'' (map (\<lambda>v. Val (as_str v)) iss) t)))"
proof -
  from column_of_label[OF assms(1,2,3)] obtain iss where
    iss: "map_of (cols t) ''issue'' = Some iss" "get_col ''issue'' t = Inr iss"
    "length iss = nrows t" by blast
  from column_of_label[OF assms(1,2,4)] obtain des where
    des: "map_of (cols t) ''description'' = Some des" "get_col ''description'' t = Inr des"
    "length des = nrows t" by blast
  have "get_col ''description'' (set_col ''issue'' (map (\<lambda>v. Val (as_str v)) iss) t) = Inr des"
    using des(2) by (simp add: get_col_set_col_other)
  then have "create_embedding_text t =
       Inr (set_col ''embedding_text'' (embedding_column iss des)
             (set_col ''description'' (map (\<lambda>v. Val (as_str v)) des)
               (set_col ''issue'' (map (\<lambda>v. Val (as_str v)) iss) t)))"
    using iss(2) by (simp add: create_embedding_text_def Let_def)
  then show ?thesis using that iss des by blast
qed

section \<open>Normalizer: ticket identifiers\<close>

lemma first_digit_run_digits: "list_all digit_char (first_digit_run s)"
  by (simp add: first_digit_run_def list_all_iff) (meson set_takeWhileD)

lemma first_digit_run_nonempty: "first_digit_run s \<noteq> [] \<longleftrightarrow> (\<exists>c \<in> set s. digit_char c)"
proof (cases "dropWhile (\<lambda>c. \<not> digit_char c) s")
  case Nil
  then have "\<forall>c \<in> set s. \<not> digit_char c" by (simp add: dropWhile_eq_Nil_conv)
  moreover have "first_digit_run s = []" by (simp only: first_digit_run_def Nil takeWhile.simps)
  ultimately show ?thesis by simp
next
  case (Cons c cs)
  then have "digit_char c" using hd_dropWhile[of "\<lambda>c. \<not> digit_char c" s] by simp
  moreover have "c \<in> set s" using Cons set_dropWhileD[of c "\<lambda>c. \<not> digit_char c" s] by simp
  ultimately show ?thesis using Cons by (auto simp: first_digit_run_def)
qed

lemma first_digit_run_split:
  "s = takeWhile (\<lambda>c. \<not> digit_char c) s @ first_digit_run s
         @ dropWhile digit_char (dropWhile (\<lambda>c. \<not> digit_char c) s)"
  by (simp add: first_digit_run_def)

lemma first_digit_run_maximal:
  "dropWhile digit_char (dropWhile (\<lambda>c. \<not> digit_char c) s) = []
   \<or> \<not> digit_char (hd (dropWhile digit_char (dropWhile (\<lambda>c. \<not> digit_char c) s)))"
  using hd_dropWhile[of digit_char "dropWhile (\<lambda>c. \<not> digit_char c) s"] by blast

lemma first_digit_run_leftmost: "\<forall>c \<in> set (takeWhile (\<lambda>c. \<not> digit_char c) s). \<not> digit_char c"
  by (auto dest: set_takeWhileD)

lemma digit_in_strip: "(\<exists>c \<in> set (strip x). digit_char c) \<longleftrightarrow> (\<exists>c \<in> set x. digit_char c)"
proof
  assume "\<exists>c \<in> set (strip x). digit_char c"
  then obtain c where "c \<in> set (strip x)" "digit_char c" by blast
  moreover have "set (strip x) \<subseteq> set x"
    by (auto simp: strip_def dest!: set_dropWhileD)
  ultimately show "\<exists>c \<in> set x. digit_char c" by blast
next
  assume "\<exists>c \<in> set x. digit_char c"
  then obtain c where c: "c \<in> set x" "digit_char c" by blast
  then have "\<not> py_isspace c" by (auto simp: digit_char_def py_isspace_def)
  with c(1) have "c \<in> set (strip x)"
    by (simp add: strip_def) (metis (no_types, lifting) UnE set_append set_rev set_takeWhileD takeWhile_dropWhile_id)
  with c(2) show "\<exists>c \<in> set (strip x). digit_char c" by blast
qed

lemma normalize_id_digits:
  "\<exists>c \<in> set x. digit_char c \<Longrightarrow> normalize_id (Val x) i = ''TCKT-'' @ first_digit_run (strip x)"
  using first_digit_run_nonempty[of "strip x"] digit_in_strip[of x]
  by (simp add: normalize_id_def Let_def)

lemma normalize_id_fallback:
  "\<forall>c \<in> set x. \<not> digit_char c \<Longrightarrow> normalize_id (Val x) i = ''TCKT-'' @ str_nat (100000 + i)"
  using first_digit_run_nonempty[of "strip x"] digit_in_strip[of x]
  by (auto simp add: normalize_id_def Let_def)

lemma normalize_id_NA: "normalize_id NA i = ''TCKT-'' @ str_nat (100000 + i)"
  by (simp add: normalize_id_def first_digit_run_def)

lemma less_ten_cases:
  "d < 10 \<Longrightarrow> d = 0 \<or> d = 1 \<or> d = 2 \<or> d = 3 \<or> d = 4 \<or> d = 5 \<or> d = 6 \<or> d = 7 \<or> d = 8 \<or> d = (9 :: nat)"
  by arith

lemma digit_val_digit_of: "d < 10 \<Longrightarrow> digit_val (digit_of d) = d"
  by (drule less_ten_cases, elim disjE) (simp_all add: digit_val_def digit_of_def)

lemma digit_char_digit_of: "d < 10 \<Longrightarrow> digit_char (digit_of d)"
  by (drule less_ten_cases, elim disjE) (simp_all add: digit_char_def digit_of_def)

lemma nat_of_digits_snoc: "nat_of_digits (ds @ [c]) = 10 * nat_of_digits ds + digit_val c"
  by (simp add: nat_of_digits_def)

lemma nat_of_str_nat: "nat_of_digits (str_nat n) = n"
proof (induction n rule: str_nat.induct)
  case (1 n)
  show ?case
  proof (cases "n < 10")
    case True
    then show ?thesis
      by (subst str_nat.simps) (simp add: nat_of_digits_def digit_val_digit_of)
  next
    case False
    with 1 have "nat_of_digits (str_nat (n div 10)) = n div 10" by simp
    with False show ?thesis
      by (subst str_nat.simps) (simp add: nat_of_digits_snoc digit_val_digit_of)
  qed
qed

lemma str_nat_inj: "str_nat m = str_nat n \<Longrightarrow> m = n"
  by (metis nat_of_str_nat)

lemma str_nat_digits: "list_all digit_char (str_nat n) \<and> str_nat n \<noteq> []"
proof (induction n rule: str_nat.induct)
  case (1 n)
  show ?case
  proof (cases "n < 10")
    case True
    then show ?thesis by (subst (1 2) str_nat.simps) (simp add: digit_char_digit_of)
  next
    case False
    with 1 have "list_all digit_char (str_nat (n div 10))" by simp
    with False show ?thesis
      by (subst (1 2) str_nat.simps) (simp add: digit_char_digit_of)
  qed
qed

lemma normalize_id_fillna: "normalize_id (fillna_empty v) i = normalize_id v i"
  by (cases v) (simp_all add: fillna_empty_def normalize_id_def strip_def)

lemma length_normalize_id_column: "length (normalize_id_column vs) = length vs"
  by (simp add: normalize_id_column_def)

lemma nth_normalize_id_column:
  "i < length vs \<Longrightarrow> normalize_id_column vs ! i = Val (normalize_id (vs ! i) i)"
  by (simp add: normalize_id_column_def nth_enumerate_eq normalize_id_fillna)

lemma normalize_ticket_ids_column:
  assumes "get_col ''ticket_id'' t = Inr vs"
  shows "normalize_ticket_ids t = Inr (set_col ''ticket_id'' (normalize_id_column vs) t)"
    and "get_col ''ticket_id'' (set_col ''ticket_id'' (normalize_id_column vs) t)
           = Inr (normalize_id_column vs)"
  using assms by (simp_all add: normalize_ticket_ids_def get_col_set_col_same)

lemma fallback_ids_distinct:
  assumes "i \<noteq> j"
  shows "''TCKT-'' @ str_nat (100000 + i) \<noteq> ''TCKT-'' @ str_nat (100000 + j)"
proof
  assume "''TCKT-'' @ str_nat (100000 + i) = ''TCKT-'' @ str_nat (100000 + j)"
  then have "str_nat (100000 + i) = str_nat (100000 + j)" by simp
  then have "100000 + i = 100000 + j" by (rule str_nat_inj)
  with assms show False by simp
qed

text \<open>
  Claim C3, as amended. For a raw id whose string form contains a digit, the normalized
  id is \<^verbatim>\<open>TCKT-\<close> followed by the first maximal digit run of the trimmed string
  (nothing before the run is a digit, and the run ends at the end of the string or at a
  non-digit). For a raw id with no digit, and for a missing one, it is \<^verbatim>\<open>TCKT-\<close>
  followed by the decimal form of 100000 plus the row's position. The id column of the
  table is rewritten row by row with the row's position as index. The ids are a function
  of value and position, and two rows that both lack a digit get different ids.
\<close>

theorem normalize_id_first_digit_run_or_position:
  "((\<exists>c \<in> set x. digit_char c) \<longrightarrow>
      normalize_id (Val x) i = ''TCKT-'' @ first_digit_run (strip x)
      \<and> first_digit_run (strip x) \<noteq> [] \<and> list_all digit_char (first_digit_run (strip x))
      \<and> (\<exists>pre post. strip x = pre @ first_digit_run (strip x) @ post
            \<and> (\<forall>c \<in> set pre. \<not> digit_char c) \<and> (post = [] \<or> \<not> digit_char (hd post))))
   \<and> ((\<forall>c \<in> set x. \<not> digit_char c) \<longrightarrow>
      normalize_id (Val x) i = ''TCKT-'' @ str_nat (100000 + i))
   \<and> normalize_id NA i = ''TCKT-'' @ str_nat (100000 + i)
   \<and> (get_col ''ticket_id'' t = Inr vs \<longrightarrow>
        (\<exists>t'. normalize_ticket_ids t = Inr t'
            \<and> get_col ''ticket_id'' t' = Inr (normalize_id_column vs))
        \<and> length (normalize_id_column vs) = length vs
        \<and> (\<forall>k < length vs. normalize_id_column vs ! k = Val (normalize_id (vs ! k) k)))
   \<and> ((\<forall>c \<in> set x. \<not> digit_char c) \<and> (\<forall>c \<in> set y. \<not> digit_char c) \<and> i \<noteq> j \<longrightarrow>
        normalize_id (Val x) i \<noteq> normalize_id (Val y) j)"
proof (intro conjI impI)
  assume d: "\<exists>c \<in> set x. digit_char c"
  then show "normalize_id (Val x) i = ''TCKT-'' @ first_digit_run (strip x)"
    by (rule normalize_id_digits)
  from d show "first_digit_run (strip x) \<noteq> []"
    by (simp add: first_digit_run_nonempty digit_in_strip)
  show "list_all digit_char (first_digit_run (strip x))" by (rule first_digit_run_digits)
  show "\<exists>pre post. strip x = pre @ first_digit_run (strip x) @ post
            \<and> (\<forall>c \<in> set pre. \<not> digit_char c) \<and> (post = [] \<or> \<not> digit_char (hd post))"
    using first_digit_run_split[of "strip x"] first_digit_run_leftmost[of "strip x"]
      first_digit_run_maximal[of "strip x"] by blast
next
  assume "\<forall>c \<in> set x. \<not> digit_char c"
  then show "normalize_id (Val x) i = ''TCKT-'' @ str_nat (100000 + i)"
    by (rule normalize_id_fallback)
next
  show "normalize_id NA i = ''TCKT-'' @ str_nat (100000 + i)" by (rule normalize_id_NA)
next
  assume g: "get_col ''ticket_id'' t = Inr vs"
  show "\<exists>t'. normalize_ticket_ids t = Inr t'
            \<and> get_col ''ticket_id'' t' = Inr (normalize_id_column vs)"
    using normalize_ticket_ids_column[OF g] by blast
  show "length (normalize_id_column vs) = length vs" by (rule length_normalize_id_column)
  show "\<forall>k < length vs. normalize_id_column vs ! k = Val (normalize_id (vs ! k) k)"
    by (simp add: nth_normalize_id_column)
next
  assume a: "(\<forall>c \<in> set x. \<not> digit_char c) \<and> (\<forall>c \<in> set y. \<not> digit_char c) \<and> i \<noteq> j"
  then show "normalize_id (Val x) i \<noteq> normalize_id (Val y) j"
    using normalize_id_fallback[of x i] normalize_id_fallback[of y j] fallback_ids_distinct[of i j]
    by simp
qed

lemma str_nat_100000: "str_nat 100000 = ''100000''"
  by (simp add: str_nat.simps digit_of_def)

lemma str_nat_100001: "str_nat 100001 = ''100001''"
  by (simp add: str_nat.simps digit_of_def)

lemma first_digit_run_examples:
  "first_digit_run (strip ''Ticket #4412-b'') = ''4412''"
  "first_digit_run (strip ''100000'') = ''100000''"
  "first_digit_run (strip ''n/a'') = []"
  by (simp_all add: first_digit_run_def strip_def py_isspace_def digit_char_def)

theorem normalize_id_first_digit_run_or_position_witness:
  "normalize_id (Val ''Ticket #4412-b'') 7 = ''TCKT-4412''
   \<and> normalize_id (Val ''n/a'') 1 = ''TCKT-100001''
   \<and> normalize_ticket_ids
        \<lparr> nrows = 2, cols = [(''ticket_id'', [Val ''Ticket #4412-b'', Val ''n/a'']),
                              (''issue'', [Val ''vpn'', NA])] \<rparr>
      = Inr \<lparr> nrows = 2, cols = [(''ticket_id'', [Val ''TCKT-4412'', Val ''TCKT-100001'']),
                                  (''issue'', [Val ''vpn'', NA])] \<rparr>
   \<and> normalize_id (Val ''n/a'') 0 \<noteq> normalize_id (Val ''none'') 1"
proof -
  let ?t = "\<lparr> nrows = 2, cols = [(''ticket_id'', [Val ''Ticket #4412-b'', Val ''n/a'']),
                              (''issue'', [Val ''vpn'', NA])] \<rparr>"
  let ?vs = "[Val ''Ticket #4412-b'', Val ''n/a'']"
  note T = normalize_id_first_digit_run_or_position
  have "\<exists>c \<in> set ''Ticket #4412-b''. digit_char c" by (simp add: digit_char_def)
  with T [of "''Ticket #4412-b''" 7 ?t ?vs "''none''" 1]
  have "normalize_id (Val ''Ticket #4412-b'') 7 = ''TCKT-'' @ first_digit_run (strip ''Ticket #4412-b'')"
    by blast
  then have a: "normalize_id (Val ''Ticket #4412-b'') 7 = ''TCKT-4412''"
    by (simp add: first_digit_run_examples)
  have nd: "\<forall>c \<in> set ''n/a''. \<not> digit_char c" "\<forall>c \<in> set ''none''. \<not> digit_char c"
    by (simp_all add: digit_char_def)
  with T [of "''n/a''" 1 ?t ?vs "''none''" 0]
  have "normalize_id (Val ''n/a'') 1 = ''TCKT-'' @ str_nat (100000 + 1)" by blast
  then have b: "normalize_id (Val ''n/a'') 1 = ''TCKT-100001''" by (simp add: str_nat_100001)
  have g: "get_col ''ticket_id'' ?t = Inr ?vs" by (simp add: get_col_def)
  with T [of "''n/a''" 0 ?t ?vs "''none''" 1]
  obtain t' where t': "normalize_ticket_ids ?t = Inr t'" by blast
  have col: "normalize_id_column ?vs = [Val ''TCKT-4412'', Val ''TCKT-100001'']"
    by (simp add: normalize_id_column_def fillna_empty_def normalize_id_def
          first_digit_run_examples str_nat_100001)
  from t' have c: "normalize_ticket_ids ?t
      = Inr \<lparr> nrows = 2, cols = [(''ticket_id'', [Val ''TCKT-4412'', Val ''TCKT-100001'']),
                                  (''issue'', [Val ''vpn'', NA])] \<rparr>"
    by (simp add: normalize_ticket_ids_def g col set_col_def labels_def)
  have ne: "(0 :: nat) \<noteq> 1" by simp
  from T [of "''n/a''" 0 ?t ?vs "''none''" 1] nd ne
  have d: "normalize_id (Val ''n/a'') 0 \<noteq> normalize_id (Val ''none'') 1" by blast
  from a b c d show ?thesis by blast
qed

text \<open>
  Claim C3 as stated fails in its last part: a fallback id can coincide with an id
  derived from digits. Row 0 has no digit and gets \<^verbatim>\<open>TCKT-100000\<close>; row 1 has the
  raw id \<^verbatim>\<open>100000\<close> and gets the same id.
\<close>

theorem fallback_id_meets_numeric_id:
  "normalize_id_column [Val ''n/a'', Val ''100000''] = [Val ''TCKT-100000'', Val ''TCKT-100000'']"
  by (simp add: normalize_id_column_def fillna_empty_def normalize_id_def
        first_digit_run_examples str_nat_100000)

section \<open>Normalizer: the four steps in sequence\<close>

lemma required_labels:
  "''ticket_id'' \<in> set REQUIRED_COLUMNS" "''issue'' \<in> set REQUIRED_COLUMNS"
  "''description'' \<in> set REQUIRED_COLUMNS" "''resolution'' \<in> set REQUIRED_COLUMNS"
  "''category'' \<in> set REQUIRED_COLUMNS" "''resolved'' \<in> set REQUIRED_COLUMNS"
  by (simp_all add: REQUIRED_COLUMNS_def)

lemma normalizer_result:
  assumes "wf_table t" "distinct (map normalize_label (labels t))" "dates_contract to_dates"
  obtains vs X iss des where
    "map_of (cols (normalize_columns t)) ''ticket_id'' = Some vs" "length vs = nrows t"
    "length X = nrows t" "list_all date_cell X"
    "\<And>dv. map_of (cols (normalize_columns t)) ''date'' = Some dv \<Longrightarrow> X = map Val (to_dates dv)"
    "map_of (cols (normalize_columns t)) ''issue'' = Some iss" "length iss = nrows t"
    "map_of (cols (normalize_columns t)) ''description'' = Some des" "length des = nrows t"
    "normalizer to_dates t =
       Inr (set_col ''embedding_text'' (embedding_column iss des)
             (set_col ''description'' (map (\<lambda>v. Val (as_str v)) des)
               (set_col ''issue'' (map (\<lambda>v. Val (as_str v)) iss)
                 (set_col ''date'' X
                   (set_col ''ticket_id'' (normalize_id_column vs) (normalize_columns t))))))"
proof -
  let ?n = "normalize_columns t"
  have wn: "wf_table ?n" using assms(1) by (rule wf_normalize_columns)
  have dn: "distinct (labels ?n)" using assms(2) by (rule distinct_normalize_columns)
  have rn: "nrows ?n = nrows t" by (rule nrows_normalize_columns)
  have ln: "set REQUIRED_COLUMNS \<subseteq> set (labels ?n)"
    by (simp only: set_labels_normalize_columns) blast
  have tin: "''ticket_id'' \<in> set (labels ?n)" using ln required_labels(1) by blast
  from normalize_ticket_ids_good[OF wn dn tin]
  obtain vs where vs0: "map_of (cols ?n) ''ticket_id'' = Some vs" "length vs = nrows ?n"
    "normalize_ticket_ids ?n = Inr (set_col ''ticket_id'' (normalize_id_column vs) ?n)"
    by blast
  have vs: "map_of (cols ?n) ''ticket_id'' = Some vs" "length vs = nrows t"
    "normalize_ticket_ids ?n = Inr (set_col ''ticket_id'' (normalize_id_column vs) ?n)"
    using vs0 rn by simp_all
  let ?t1 = "set_col ''ticket_id'' (normalize_id_column vs) ?n"
  have w1: "wf_table ?t1"
    using wn vs(2) rn by (simp add: wf_set_col length_normalize_id_column)
  have d1: "distinct (labels ?t1)" using dn by (rule distinct_set_col)
  have r1: "nrows ?t1 = nrows t" by (simp add: nrows_set_col rn)
  from normalize_dates_good[OF w1 d1 assms(3)]
  obtain X where X0: "length X = nrows ?t1" "list_all date_cell X"
    "normalize_dates to_dates ?t1 = Inr (set_col ''date'' X ?t1)"
    "\<And>dv. map_of (cols ?t1) ''date'' = Some dv \<Longrightarrow> X = map Val (to_dates dv)"
    by blast
  have X: "length X = nrows t" "list_all date_cell X"
    "normalize_dates to_dates ?t1 = Inr (set_col ''date'' X ?t1)"
    using X0(1-3) r1 by simp_all
  note X4 = X0(4)
  have Xn: "\<And>dv. map_of (cols ?n) ''date'' = Some dv \<Longrightarrow> X = map Val (to_dates dv)"
  proof -
    fix dv assume "map_of (cols ?n) ''date'' = Some dv"
    then have "map_of (cols ?t1) ''date'' = Some dv" by (simp add: map_of_set_col)
    then show "X = map Val (to_dates dv)" by (rule X4)
  qed
  let ?t2 = "set_col ''date'' X ?t1"
  have w2: "wf_table ?t2" using w1 X(1) r1 by (simp add: wf_set_col)
  have d2: "distinct (labels ?t2)" using d1 by (rule distinct_set_col)
  have r2: "nrows ?t2 = nrows t" by (simp add: nrows_set_col rn)
  have l2: "''issue'' \<in> set (labels ?t2)" "''description'' \<in> set (labels ?t2)"
    using ln required_labels(2,3) by (auto simp: set_labels_set_col)
  from create_embedding_text_good[OF w2 d2 l2]
  obtain iss des where e0: "map_of (cols ?t2) ''issue'' = Some iss"
    "map_of (cols ?t2) ''description'' = Some des"
    "length iss = nrows ?t2" "length des = nrows ?t2"
    "create_embedding_text ?t2 =
       Inr (set_col ''embedding_text'' (embedding_column iss des)
             (set_col ''description'' (map (\<lambda>v. Val (as_str v)) des)
               (set_col ''issue'' (map (\<lambda>v. Val (as_str v)) iss) ?t2)))"
    by blast
  have e: "map_of (cols ?t2) ''issue'' = Some iss"
    "map_of (cols ?t2) ''description'' = Some des" "length iss = nrows t" "length des = nrows t"
    using e0(1-4) r2 by simp_all
  note e5 = e0(5)
  have en: "map_of (cols ?n) ''issue'' = Some iss" "map_of (cols ?n) ''description'' = Some des"
    using e(1,2) by (simp_all add: map_of_set_col)
  have "normalizer to_dates t =
       Inr (set_col ''embedding_text'' (embedding_column iss des)
             (set_col ''description'' (map (\<lambda>v. Val (as_str v)) des)
               (set_col ''issue'' (map (\<lambda>v. Val (as_str v)) iss) ?t2)))"
    by (simp only: normalizer_def vs(3) X(3) e5 sum.case)
  then show ?thesis
    using that[OF vs(1,2) X(1,2) _ en(1) e(3) en(2) e(4)] Xn by blast
qed

section \<open>Candidate Assembler: parsing the resolved flag\<close>

subsection \<open>Characters\<close>

lemma digit_not_space: "digit_char c \<Longrightarrow> \<not> py_isspace c"
  by (auto simp: digit_char_def py_isspace_def)

lemma digit_not_cspace: "digit_char c \<Longrightarrow> \<not> c_isspace c"
  by (auto simp: digit_char_def c_isspace_def)

lemma lower_char_id:
  assumes "c \<notin> set upper_chars"
  shows "lower_char c = c"
proof -
  have "map_of (zip upper_chars lower_chars) c = None"
    by (rule iffD2[OF map_of_zip_is_None]) (simp add: upper_chars_def lower_chars_def, rule assms)
  then show ?thesis by (simp only: lower_char_def option.case)
qed

lemma upper_char_cases:
  assumes "c \<in> set upper_chars"
  shows "lower_char c \<in> set lower_chars \<and> (float_char (lower_char c) \<longrightarrow> float_char c)
       \<and> lower_char c \<noteq> CHR ''_''"
proof -
  from assms have "c = CHR ''A'' \<or> c = CHR ''B'' \<or> c = CHR ''C'' \<or> c = CHR ''D'' \<or> c = CHR ''E'' \<or> c = CHR ''F'' \<or> c = CHR ''G'' \<or> c = CHR ''H'' \<or> c = CHR ''I'' \<or> c = CHR ''J'' \<or> c = CHR ''K'' \<or> c = CHR ''L'' \<or> c = CHR ''M'' \<or> c = CHR ''N'' \<or> c = CHR ''O'' \<or> c = CHR ''P'' \<or> c = CHR ''Q'' \<or> c = CHR ''R'' \<or> c = CHR ''S'' \<or> c = CHR ''T'' \<or> c = CHR ''U'' \<or> c = CHR ''V'' \<or> c = CHR ''W'' \<or> c = CHR ''X'' \<or> c = CHR ''Y'' \<or> c = CHR ''Z''
     \<or> c = CHR 0xC0 \<or> c = CHR 0xC1 \<or> c = CHR 0xC2 \<or> c = CHR 0xC3 \<or> c = CHR 0xC4 \<or> c = CHR 0xC5 \<or> c = CHR 0xC6 \<or> c = CHR 0xC7 \<or> c = CHR 0xC8 \<or> c = CHR 0xC9 \<or> c = CHR 0xCA \<or> c = CHR 0xCB \<or> c = CHR 0xCC \<or> c = CHR 0xCD \<or> c = CHR 0xCE \<or> c = CHR 0xCF
     \<or> c = CHR 0xD0 \<or> c = CHR 0xD1 \<or> c = CHR 0xD2 \<or> c = CHR 0xD3 \<or> c = CHR 0xD4 \<or> c = CHR 0xD5 \<or> c = CHR 0xD6 \<or> c = CHR 0xD8 \<or> c = CHR 0xD9 \<or> c = CHR 0xDA \<or> c = CHR 0xDB \<or> c = CHR 0xDC \<or> c = CHR 0xDD \<or> c = CHR 0xDE"
    by (simp add: upper_chars_def)
  then show ?thesis
    by (elim disjE) (simp_all add: lower_char_def upper_chars_def lower_chars_def float_char_def)
qed

lemma lower_chars_not_space: "d \<in> set lower_chars \<Longrightarrow> \<not> py_isspace d"
  by (auto simp: lower_chars_def py_isspace_def)

lemma lower_char_space: "py_isspace (lower_char c) \<Longrightarrow> py_isspace c"
  using lower_char_id[of c] upper_char_cases[of c] lower_chars_not_space[of "lower_char c"]
  by metis

lemma float_char_lower: "float_char (lower_char c) \<Longrightarrow> float_char c"
  using lower_char_id[of c] upper_char_cases[of c] by metis

lemma float_char_plain:
  "float_char c \<Longrightarrow> of_char c < (127 :: nat) \<and> \<not> c_isspace c \<and> \<not> py_isspace c"
  by (auto simp: float_char_def c_isspace_def py_isspace_def)

lemma digit_float_char: "digit_char c \<Longrightarrow> float_char c"
  by (auto simp: float_char_def digit_char_def)

lemma digit_not_upper: "digit_char c \<Longrightarrow> c \<notin> set upper_chars"
  by (auto simp: digit_char_def upper_chars_def)

lemma digit_lower: "digit_char c \<Longrightarrow> lower_char c = c"
  by (rule lower_char_id) (rule digit_not_upper)

lemma cspace_pyspace: "c_isspace c \<Longrightarrow> py_isspace c"
  by (auto simp: c_isspace_def py_isspace_def)

subsection \<open>Trimming\<close>

lemma strip_ends_self:
  assumes "s \<noteq> []" "\<not> P (hd s)" "\<not> P (last s)"
  shows "rev (dropWhile P (rev (dropWhile P s))) = s"
proof -
  have a: "dropWhile P s = s" using assms by (cases s) auto
  have "rev s \<noteq> []" "\<not> P (hd (rev s))" using assms by (simp_all add: hd_rev)
  then have "dropWhile P (rev s) = rev s" by (cases "rev s") auto
  with a show ?thesis by simp
qed

lemma strip_all_self:
  assumes "\<forall>c \<in> set s. \<not> P c"
  shows "rev (dropWhile P (rev (dropWhile P s))) = s"
proof (cases "s = []")
  case True then show ?thesis by simp
next
  case False
  then show ?thesis using assms by (intro strip_ends_self) auto
qed

lemma dropWhile_ends:
  "dropWhile P s = [] \<or> \<not> P (hd (dropWhile P s))"
  by (induction s) auto

lemma strip_clean:
  "rev (dropWhile P (rev (dropWhile P s))) = [] \<or>
   (\<not> P (hd (rev (dropWhile P (rev (dropWhile P s)))))
    \<and> \<not> P (last (rev (dropWhile P (rev (dropWhile P s))))))"
proof -
  define a where "a = dropWhile P s"
  define b where "b = dropWhile P (rev a)"
  show ?thesis
  proof (cases "b = []")
    case True then show ?thesis by (simp add: a_def b_def)
  next
    case False
    have hb: "\<not> P (hd b)" using dropWhile_ends[of P "rev a"] False unfolding b_def by blast
    have "rev a = takeWhile P (rev a) @ b" by (simp add: b_def)
    then have ra: "a = rev b @ rev (takeWhile P (rev a))" by (metis rev_append rev_rev_ident)
    from False have an: "a \<noteq> []" unfolding b_def by auto
    have "\<not> P (hd a)" using dropWhile_ends[of P s] an unfolding a_def by blast
    moreover have "hd a = hd (rev b)" using ra False by (metis hd_append2 rev_is_Nil_conv)
    ultimately have "\<not> P (hd (rev b))" by simp
    moreover have "last (rev b) = hd b" using False by (simp add: last_rev)
    ultimately show ?thesis using hb unfolding a_def b_def by simp
  qed
qed

lemma lower_strip_clean:
  "lower (strip v) = [] \<or>
   (\<not> py_isspace (hd (lower (strip v))) \<and> \<not> py_isspace (last (lower (strip v))))"
proof (cases "strip v = []")
  case True then show ?thesis by (simp add: lower_def)
next
  case False
  have "\<not> py_isspace (hd (strip v))" "\<not> py_isspace (last (strip v))"
    using False strip_clean[of py_isspace v] unfolding strip_def by blast+
  moreover have "hd (lower (strip v)) = lower_char (hd (strip v))"
    "last (lower (strip v)) = lower_char (last (strip v))"
    using False by (simp_all add: lower_def hd_map last_map)
  ultimately show ?thesis using lower_char_space by metis
qed

subsection \<open>Underscores\<close>

lemma grouped_Nil: "grouped prev [] \<longleftrightarrow> prev \<noteq> CHR ''_''"
  by (simp add: grouped_def)

lemma grouped_underscore:
  "grouped prev (CHR ''_'' # cs) \<longleftrightarrow> digit_char prev \<and> grouped (CHR ''_'') cs"
proof
  assume g: "grouped prev (CHR ''_'' # cs)"
  have "CHR ''_'' # cs = [] @ CHR ''_'' # cs" by simp
  with g have a: "digit_char prev" "cs \<noteq> []" "digit_char (hd cs)"
    unfolding grouped_def by (metis last.simps)+
  have "\<forall>pre post. cs = pre @ CHR ''_'' # post \<longrightarrow>
          digit_char (last (CHR ''_'' # pre)) \<and> post \<noteq> [] \<and> digit_char (hd post)"
  proof (intro allI impI)
    fix pre post assume "cs = pre @ CHR ''_'' # post"
    then have "CHR ''_'' # cs = (CHR ''_'' # pre) @ CHR ''_'' # post" by simp
    with g have "digit_char (last (prev # CHR ''_'' # pre)) \<and> post \<noteq> [] \<and> digit_char (hd post)"
      unfolding grouped_def by blast
    then show "digit_char (last (CHR ''_'' # pre)) \<and> post \<noteq> [] \<and> digit_char (hd post)" by simp
  qed
  with a show "digit_char prev \<and> grouped (CHR ''_'') cs" by (simp add: grouped_def)
next
  assume a: "digit_char prev \<and> grouped (CHR ''_'') cs"
  then have p: "prev \<noteq> CHR ''_''" by (auto simp: digit_char_def)
  have "\<forall>pre post. CHR ''_'' # cs = pre @ CHR ''_'' # post \<longrightarrow>
          digit_char (last (prev # pre)) \<and> post \<noteq> [] \<and> digit_char (hd post)"
  proof (intro allI impI)
    fix pre post assume e: "CHR ''_'' # cs = pre @ CHR ''_'' # post"
    show "digit_char (last (prev # pre)) \<and> post \<noteq> [] \<and> digit_char (hd post)"
    proof (cases pre)
      case Nil
      with e have "post = cs" by simp
      with a Nil show ?thesis by (simp add: grouped_def)
    next
      case (Cons x pre')
      with e have "cs = pre' @ CHR ''_'' # post" "x = CHR ''_''" by simp_all
      with a have "digit_char (last (CHR ''_'' # pre')) \<and> post \<noteq> [] \<and> digit_char (hd post)"
        unfolding grouped_def by blast
      then show ?thesis using Cons \<open>x = CHR ''_''\<close> by simp
    qed
  qed
  with p show "grouped prev (CHR ''_'' # cs)" by (simp add: grouped_def)
qed

lemma grouped_other:
  assumes "c \<noteq> CHR ''_''"
  shows "grouped prev (c # cs) \<longleftrightarrow> (prev = CHR ''_'' \<longrightarrow> digit_char c) \<and> grouped c cs"
proof
  assume g: "grouped prev (c # cs)"
  have "\<forall>pre post. cs = pre @ CHR ''_'' # post \<longrightarrow>
          digit_char (last (c # pre)) \<and> post \<noteq> [] \<and> digit_char (hd post)"
  proof (intro allI impI)
    fix pre post assume "cs = pre @ CHR ''_'' # post"
    then have "c # cs = (c # pre) @ CHR ''_'' # post" by simp
    with g have "digit_char (last (prev # c # pre)) \<and> post \<noteq> [] \<and> digit_char (hd post)"
      unfolding grouped_def by blast
    then show "digit_char (last (c # pre)) \<and> post \<noteq> [] \<and> digit_char (hd post)" by simp
  qed
  moreover from g have "prev = CHR ''_'' \<longrightarrow> digit_char c" by (simp add: grouped_def)
  ultimately show "(prev = CHR ''_'' \<longrightarrow> digit_char c) \<and> grouped c cs"
    using assms by (simp add: grouped_def)
next
  assume a: "(prev = CHR ''_'' \<longrightarrow> digit_char c) \<and> grouped c cs"
  have "\<forall>pre post. c # cs = pre @ CHR ''_'' # post \<longrightarrow>
          digit_char (last (prev # pre)) \<and> post \<noteq> [] \<and> digit_char (hd post)"
  proof (intro allI impI)
    fix pre post assume e: "c # cs = pre @ CHR ''_'' # post"
    show "digit_char (last (prev # pre)) \<and> post \<noteq> [] \<and> digit_char (hd post)"
    proof (cases pre)
      case Nil with e assms show ?thesis by simp
    next
      case (Cons x pre')
      with e have "cs = pre' @ CHR ''_'' # post" "x = c" by simp_all
      with a have "digit_char (last (c # pre')) \<and> post \<noteq> [] \<and> digit_char (hd post)"
        unfolding grouped_def by blast
      then show ?thesis using Cons \<open>x = c\<close> by simp
    qed
  qed
  with a show "grouped prev (c # cs)" by (simp add: grouped_def)
qed

lemma strip_underscores_grouped:
  "strip_underscores prev s = (if grouped prev s then Some (without_underscores s) else None)"
proof (induction s arbitrary: prev)
  case Nil
  show ?case by (simp add: grouped_Nil without_underscores_def)
next
  case (Cons c cs)
  show ?case
  proof (cases "c = CHR ''_''")
    case True
    then show ?thesis
      by (simp add: Cons.IH grouped_underscore without_underscores_def)
  next
    case False
    then show ?thesis
      by (simp add: Cons.IH grouped_other without_underscores_def)
  qed
qed

lemma grouped_start: "grouped (CHR 0x00) s \<longleftrightarrow> underscores_ok s"
proof -
  have d: "\<not> digit_char (CHR 0x00)" by (simp add: digit_char_def)
  have "\<And>pre. digit_char (last (CHR 0x00 # pre)) \<longleftrightarrow> pre \<noteq> [] \<and> digit_char (last pre)"
    using d by simp
  then show ?thesis by (simp add: grouped_def underscores_ok_def)
qed

lemma float_char_underscores:
  "list_all float_char (without_underscores s) \<Longrightarrow> list_all float_char s"
proof -
  have u: "float_char (CHR ''_'')" by (simp add: float_char_def)
  assume "list_all float_char (without_underscores s)"
  then have "\<forall>c \<in> set s. c \<noteq> CHR ''_'' \<longrightarrow> float_char c"
    by (simp add: without_underscores_def list_all_iff)
  with u show ?thesis unfolding list_all_iff by metis
qed

lemma no_underscore_without: "CHR ''_'' \<notin> set s \<Longrightarrow> without_underscores s = s"
  by (induction s) (auto simp: without_underscores_def)

lemma no_underscore_ok: "CHR ''_'' \<notin> set s \<Longrightarrow> underscores_ok s"
  by (auto simp: underscores_ok_def)

lemma underscore_needs_digit:
  assumes "underscores_ok s" "CHR ''_'' \<in> set s"
  shows "\<exists>d \<in> set (without_underscores s). digit_char d"
proof -
  from assms(2) obtain pre post where s: "s = pre @ CHR ''_'' # post"
    by (auto simp: in_set_conv_decomp)
  with assms(1) have p: "pre \<noteq> []" "digit_char (last pre)" by (auto simp: underscores_ok_def)
  then have "last pre \<in> set s" using s by simp
  moreover have "last pre \<noteq> CHR ''_''" using p(2) by (auto simp: digit_char_def)
  ultimately have "last pre \<in> set (without_underscores s)" by (simp add: without_underscores_def)
  with p(2) show ?thesis by blast
qed

subsection \<open>What float reads of a string of its own characters\<close>

lemma to_ascii_plain: "\<forall>c \<in> set s. of_char c < (127 :: nat) \<Longrightarrow> to_ascii s = s"
  by (induction s) simp_all

lemma py_float_plain:
  assumes "list_all float_char s"
  shows "py_float s = (if underscores_ok s then strtod (without_underscores s) else None)"
proof -
  have a: "to_ascii s = s"
    by (rule to_ascii_plain) (use assms float_char_plain in \<open>auto simp: list_all_iff\<close>)
  have b: "rev (dropWhile c_isspace (rev (dropWhile c_isspace s))) = s"
    by (rule strip_all_self) (use assms float_char_plain in \<open>auto simp: list_all_iff\<close>)
  show ?thesis
    by (simp add: py_float_def a b strip_underscores_grouped grouped_start)
qed

subsection \<open>Numerals are read with their value\<close>

lemma take_sign_text:
  assumes "sign_text sg" "r \<noteq> []" "hd r \<noteq> CHR ''+''" "hd r \<noteq> CHR ''-''"
  shows "take_sign (sg @ r) = (sg = ''-'', r)"
proof -
  from assms(2) obtain c t where r: "r = c # t" by (cases r) auto
  from assms(1) consider "sg = []" | "sg = ''+''" | "sg = ''-''" by (auto simp: sign_text_def)
  then show ?thesis
    using assms(3,4) by cases (simp_all add: take_sign_def r)
qed

lemma digits_then:
  assumes "list_all digit_char ds" "r = [] \<or> \<not> digit_char (hd r)"
  shows "takeWhile digit_char (ds @ r) = ds" "dropWhile digit_char (ds @ r) = r"
proof -
  have r: "takeWhile digit_char r = []" "dropWhile digit_char r = r"
    using assms(2) by (cases r; simp)+
  from assms(1) have a: "\<forall>c \<in> set ds. digit_char c" by (simp add: list_all_iff)
  show "takeWhile digit_char (ds @ r) = ds"
    using a r by (simp add: takeWhile_append2)
  show "dropWhile digit_char (ds @ r) = r"
    using a r by (simp add: dropWhile_append2)
qed

lemma exponent_text_start:
  assumes "numeral_ok n"
  shows "(case n_exp n of None \<Rightarrow> [] | Some (e, sg, ds) \<Rightarrow> e # sg @ ds) = []
       \<or> \<not> digit_char (hd (case n_exp n of None \<Rightarrow> [] | Some (e, sg, ds) \<Rightarrow> e # sg @ ds))
         \<and> hd (case n_exp n of None \<Rightarrow> [] | Some (e, sg, ds) \<Rightarrow> e # sg @ ds) \<noteq> CHR ''.''"
  using assms by (auto simp: numeral_ok_def digit_char_def split: option.splits)

lemma strtod_number_exponent:
  assumes "numeral_ok n"
  shows "(let ex = (case n_exp n of None \<Rightarrow> [] | Some (e, sg, ds) \<Rightarrow> e # sg @ ds)
          in if ex = [] then Some (Dec neg m (- int k))
             else if hd ex = CHR ''e'' \<or> hd ex = CHR ''E''
             then (let (eneg, t) = take_sign (tl ex)
                   in if t = [] \<or> \<not> list_all digit_char t then None
                      else Some (Dec neg m
                             ((if eneg then - int (nat_of_digits t) else int (nat_of_digits t))
                              - int k)))
             else None)
         = Some (Dec neg m
             ((case n_exp n of
                 None \<Rightarrow> 0
               | Some (e, sg, ds) \<Rightarrow>
                   if sg = ''-'' then - int (nat_of_digits ds) else int (nat_of_digits ds))
              - int k))"
proof (cases "n_exp n")
  case None
  then show ?thesis by simp
next
  case (Some p)
  obtain e sg ds where p: "p = (e, sg, ds)" by (cases p) auto
  from assms Some p have e: "e = CHR ''e'' \<or> e = CHR ''E''" and sg: "sign_text sg"
    and ds: "ds \<noteq> []" "list_all digit_char ds"
    by (simp_all add: numeral_ok_def)
  have "digit_char (hd ds)" using ds by (cases ds) simp_all
  then have "hd ds \<noteq> CHR ''+''" "hd ds \<noteq> CHR ''-''" by (auto simp: digit_char_def)
  with take_sign_text[OF sg ds(1)] have ts: "take_sign (sg @ ds) = (sg = ''-'', ds)" by simp
  show ?thesis using e ds by (simp add: Some p ts)
qed

lemma strtod_number_numeral:
  assumes "numeral_ok n"
  shows "strtod_number neg
           (n_int n @ (if n_point n then CHR ''.'' # n_frac n else [])
            @ (case n_exp n of None \<Rightarrow> [] | Some (e, sg, ds) \<Rightarrow> e # sg @ ds))
         = Some (Dec neg (numeral_mantissa n) (numeral_exponent n))"
proof -
  define ex where "ex = (case n_exp n of None \<Rightarrow> [] | Some (e, sg, ds) \<Rightarrow> e # sg @ ds)"
  from assms have di: "list_all digit_char (n_int n)" and df: "list_all digit_char (n_frac n)"
    and ne: "n_int n \<noteq> [] \<or> n_frac n \<noteq> []" and pt: "n_point n \<or> n_frac n = []"
    by (simp_all add: numeral_ok_def)
  have exs: "ex = [] \<or> \<not> digit_char (hd ex) \<and> hd ex \<noteq> CHR ''.''"
    using exponent_text_start[OF assms] by (simp add: ex_def)
  then have exd: "ex = [] \<or> \<not> digit_char (hd ex)" by blast
  have tail: "(if ex = [] then Some (Dec neg (nat_of_digits (n_int n @ n_frac n))
                                   (- int (length (n_frac n))))
      else if hd ex = CHR ''e'' \<or> hd ex = CHR ''E''
      then (case take_sign (tl ex) of (eneg, t) \<Rightarrow>
              if t = [] \<or> \<not> list_all digit_char t then None
              else Some (Dec neg (nat_of_digits (n_int n @ n_frac n))
                     ((if eneg then - int (nat_of_digits t) else int (nat_of_digits t))
                      - int (length (n_frac n)))))
      else None)
     = Some (Dec neg (numeral_mantissa n) (numeral_exponent n))"
    unfolding ex_def numeral_mantissa_def numeral_exponent_def
    by (rule strtod_number_exponent[OF assms, unfolded Let_def])
  show ?thesis
  proof (cases "n_point n")
    case True
    have nd: "\<not> digit_char (CHR ''.'')" by (simp add: digit_char_def)
    have a: "takeWhile digit_char (n_int n @ CHR ''.'' # n_frac n @ ex) = n_int n"
      "dropWhile digit_char (n_int n @ CHR ''.'' # n_frac n @ ex) = CHR ''.'' # n_frac n @ ex"
      using digits_then[OF di, of "CHR ''.'' # n_frac n @ ex"] nd by simp_all
    have hp: "(CHR ''.'' # n_frac n @ ex \<noteq> [] \<and> hd (CHR ''.'' # n_frac n @ ex) = CHR ''.'') = True"
      "tl (CHR ''.'' # n_frac n @ ex) = n_frac n @ ex" by simp_all
    have b: "takeWhile digit_char (n_frac n @ ex) = n_frac n"
      "dropWhile digit_char (n_frac n @ ex) = ex"
      using digits_then[OF df exd] by simp_all
    have ne': "(n_int n = [] \<and> n_frac n = []) = False" using ne by simp
    have "strtod_number neg (n_int n @ CHR ''.'' # n_frac n @ ex)
            = Some (Dec neg (numeral_mantissa n) (numeral_exponent n))"
      by (simp only: strtod_number_def Let_def a hp b ne' if_True if_False) (rule tail)
    then show ?thesis using True by (simp add: ex_def)
  next
    case False
    with pt have f: "n_frac n = []" by simp
    have a: "takeWhile digit_char (n_int n @ ex) = n_int n"
      "dropWhile digit_char (n_int n @ ex) = ex"
      using digits_then[OF di exd] by simp_all
    have hp: "(ex \<noteq> [] \<and> hd ex = CHR ''.'') = False" using exs by blast
    have ne': "(n_int n = [] \<and> ([] :: string) = []) = False" using ne f by simp
    have "strtod_number neg (n_int n @ ex)
            = Some (Dec neg (numeral_mantissa n) (numeral_exponent n))"
      by (simp only: strtod_number_def Let_def a hp ne' if_True if_False) (rule tail[unfolded f])
    then show ?thesis using False by (simp add: ex_def)
  qed
qed

lemma numeral_body_start:
  assumes "numeral_ok n"
  shows "\<exists>c t. n_int n @ (if n_point n then CHR ''.'' # n_frac n else [])
               @ (case n_exp n of None \<Rightarrow> [] | Some (e, sg, ds) \<Rightarrow> e # sg @ ds) = c # t
             \<and> (digit_char c \<or> c = CHR ''.'')"
proof (cases "n_int n")
  case Nil
  with assms have "n_point n" by (auto simp: numeral_ok_def)
  with Nil show ?thesis by simp
next
  case (Cons c t)
  with assms have "digit_char c" by (simp add: numeral_ok_def)
  with Cons show ?thesis by simp
qed

lemma strtod_numeral:
  assumes "numeral_ok n"
  shows "strtod (numeral_text n) = Some (Dec (n_sign n = ''-'') (numeral_mantissa n) (numeral_exponent n))"
proof -
  define body where "body = n_int n @ (if n_point n then CHR ''.'' # n_frac n else [])
               @ (case n_exp n of None \<Rightarrow> [] | Some (e, sg, ds) \<Rightarrow> e # sg @ ds)"
  from numeral_body_start[OF assms] obtain c t where b: "body = c # t"
    and c: "digit_char c \<or> c = CHR ''.''" by (auto simp: body_def)
  have c': "c \<noteq> CHR ''+''" "c \<noteq> CHR ''-''" "lower_char c = c" "c \<noteq> CHR ''i''" "c \<noteq> CHR ''n''"
    using c lower_char_id[of c] by (auto simp: digit_char_def upper_chars_def)
  from assms have sg: "sign_text (n_sign n)" by (simp add: numeral_ok_def)
  have ts: "take_sign (n_sign n @ body) = (n_sign n = ''-'', body)"
    by (rule take_sign_text[OF sg]) (simp_all add: b c')
  have lw: "lower body \<noteq> ''inf''" "lower body \<noteq> ''infinity''" "lower body \<noteq> ''nan''"
    using c' by (auto simp: lower_def b)
  have "strtod (n_sign n @ body)
          = Some (Dec (n_sign n = ''-'') (numeral_mantissa n) (numeral_exponent n))"
    using lw strtod_number_numeral[OF assms, of "n_sign n = ''-''"]
    by (simp add: strtod_def ts body_def[symmetric])
  then show ?thesis by (simp add: numeral_text_def body_def)
qed

lemma numeral_text_chars:
  assumes "numeral_ok n"
  shows "list_all float_char (numeral_text n)"
proof -
  have d: "\<And>ds. list_all digit_char ds \<Longrightarrow> list_all float_char ds"
    by (auto simp: list_all_iff digit_float_char)
  have s: "\<And>sg. sign_text sg \<Longrightarrow> list_all float_char sg"
    by (auto simp: sign_text_def float_char_def)
  have p: "float_char (CHR ''.'')" "float_char (CHR ''e'')" "float_char (CHR ''E'')"
    by (simp_all add: float_char_def)
  from assms show ?thesis
    by (auto simp: numeral_ok_def numeral_text_def d s p split: option.splits)
qed

lemma numeral_text_start:
  assumes "numeral_ok n"
  shows "numeral_text n \<noteq> [] \<and> hd (numeral_text n) \<in> set ''0123456789+-.''"
proof -
  from numeral_body_start[OF assms] obtain c t where
    b: "n_int n @ (if n_point n then CHR ''.'' # n_frac n else [])
               @ (case n_exp n of None \<Rightarrow> [] | Some (e, sg, ds) \<Rightarrow> e # sg @ ds) = c # t"
    and c: "digit_char c \<or> c = CHR ''.''" by blast
  then have t: "numeral_text n = n_sign n @ c # t" by (simp add: numeral_text_def)
  from assms have "sign_text (n_sign n)" by (simp add: numeral_ok_def)
  then consider "n_sign n = []" | "n_sign n = ''+''" | "n_sign n = ''-''"
    by (auto simp: sign_text_def)
  then show ?thesis using c by cases (auto simp: t digit_char_def)
qed

lemma truthy_threshold:
  fixes e :: int and m P :: nat
  assumes "1 < P"
  shows "(if 0 \<le> e then m \<noteq> 0 else 10 ^ nat (- e) < m * P)
           = (\<not> m * 10 ^ nat e * P \<le> 10 ^ nat (- e))"
proof (cases "0 \<le> e")
  case True
  then have z: "nat (- e) = 0" by simp
  show ?thesis
  proof (cases "m = 0")
    case True then show ?thesis using \<open>0 \<le> e\<close> by simp
  next
    case False
    have "1 \<le> m * 10 ^ nat e" using False by simp
    then have "P \<le> m * 10 ^ nat e * P" by (metis mult_le_mono1 nat_mult_1)
    with assms have "1 < m * 10 ^ nat e * P" by linarith
    then show ?thesis using False True by (simp add: z)
  qed
next
  case False
  then have "nat e = 0" by simp
  then show ?thesis using False by (simp add: not_le)
qed

lemma float_truthy_numeral:
  "float_truthy (Dec neg (numeral_mantissa n) (numeral_exponent n)) = (\<not> reads_as_zero n)"
proof -
  have "(1 :: nat) < 2 ^ 1075" by (rule one_less_power) simp_all
  from truthy_threshold[OF this, of "numeral_exponent n" "numeral_mantissa n"]
  show ?thesis by (simp only: float_truthy_def reads_as_zero_def pyfloat.case)
qed

lemma py_float_numeral:
  assumes "reads_numeral s n"
  shows "py_float s = Some (Dec (n_sign n = ''-'') (numeral_mantissa n) (numeral_exponent n))"
proof -
  from assms have ok: "numeral_ok n" and u: "underscores_ok s"
    and w: "without_underscores s = numeral_text n" by (simp_all add: reads_numeral_def)
  have "list_all float_char s"
    by (rule float_char_underscores) (simp add: w numeral_text_chars[OF ok])
  from py_float_plain[OF this] show ?thesis by (simp add: u w strtod_numeral[OF ok])
qed

lemma strip_Nil: "strip [] = []"
  by (simp add: strip_def)

lemma parse_resolved_numeral:
  assumes "reads_numeral (lower (strip v)) n"
  shows "parse_resolved v = Some (\<not> reads_as_zero n)"
proof -
  let ?s = "lower (strip v)"
  from assms have ok: "numeral_ok n" and w: "without_underscores ?s = numeral_text n"
    by (simp_all add: reads_numeral_def)
  from numeral_text_start[OF ok] have st: "numeral_text n \<noteq> []"
    "hd (numeral_text n) \<in> set ''0123456789+-.''" by simp_all
  have v: "v \<noteq> []"
  proof
    assume "v = []"
    then have "?s = []" by (simp add: strip_Nil lower_def)
    with w st(1) show False by (simp add: without_underscores_def)
  qed
  have nt: "?s \<noteq> ''true''"
  proof
    assume "?s = ''true''"
    with w have "numeral_text n = ''true''" by (simp add: without_underscores_def)
    with st(2) show False by simp
  qed
  have nf: "?s \<noteq> ''false''"
  proof
    assume "?s = ''false''"
    with w have "numeral_text n = ''false''" by (simp add: without_underscores_def)
    with st(2) show False by simp
  qed
  show ?thesis
    using v nt nf by (simp add: parse_resolved_def py_float_numeral[OF assms] float_truthy_numeral)
qed

section \<open>Candidate Assembler: dates that came through the normalizer\<close>

lemma split_slash_none: "CHR ''/'' \<notin> set s \<Longrightarrow> split_slash s = None"
proof -
  assume "CHR ''/'' \<notin> set s"
  then have h: "dropWhile (\<lambda>c. c \<noteq> CHR ''/'') s = []" by (induction s) auto
  show ?thesis by (simp only: split_slash_def h list.case)
qed

lemma parse_date_no_slash: "CHR ''/'' \<notin> set s \<Longrightarrow> parse_date s = None"
  by (simp add: parse_date_def strptime_mdY_def split_slash_none)

lemma digit_not_slash: "digit_char c \<Longrightarrow> c \<noteq> CHR ''/''"
  by (auto simp: digit_char_def)

lemma iso_date_no_slash:
  assumes "iso_date s" shows "CHR ''/'' \<notin> set s"
proof
  assume "CHR ''/'' \<in> set s"
  then obtain i where i: "i < length s" "s ! i = CHR ''/''" by (auto simp: in_set_conv_nth)
  from assms have len: "length s = 10" and
    a: "list_all digit_char (take 4 s)" and b: "s ! 4 = CHR ''-''" and
    c: "list_all digit_char (take 2 (drop 5 s))" and d: "s ! 7 = CHR ''-''" and
    e: "list_all digit_char (drop 8 s)"
    by (simp_all add: iso_date_def)
  consider "i < 4" | "i = 4" | "i = 5 \<or> i = 6" | "i = 7" | "i = 8 \<or> i = 9"
    using i(1) len by linarith
  then show False
  proof cases
    case 1
    then have "digit_char (take 4 s ! i)" using a len by (simp add: list_all_length)
    then show False using 1 i(2) digit_not_slash[of "s ! i"] by simp
  next
    case 2 then show False using b i(2) by simp
  next
    case 3
    have "\<forall>n<2. digit_char (s ! (5 + n))" using c len by (simp add: list_all_length)
    from this[rule_format, of 0] this[rule_format, of 1]
    have "digit_char (s ! 5)" "digit_char (s ! 6)" by simp_all
    then show False using 3 i(2) digit_not_slash[of "s ! i"] by auto
  next
    case 4 then show False using d i(2) by simp
  next
    case 5
    have "\<forall>n<2. digit_char (s ! (8 + n))" using e len by (simp add: list_all_length)
    from this[rule_format, of 0] this[rule_format, of 1]
    have "digit_char (s ! 8)" "digit_char (s ! 9)" by simp_all
    then show False using 5 i(2) digit_not_slash[of "s ! i"] by auto
  qed
qed

text \<open>
  Claim C10. A date in the normalizer's canonical form YYYY-MM-DD has no slash, so the
  Candidate Assembler's parser, which only reads MM/DD/YYYY, returns \<open>None\<close> on it;
  hence every candidate built from a hit whose stored date is empty or canonical carries
  \<open>None\<close> as its parsed date.
\<close>

theorem parsed_date_of_normalized_date_is_none:
  "(iso_date d \<longrightarrow> parse_date d = None) \<and>
   ((\<forall>h \<in> set hits. meta_get (hit_metadata h) ''date'' [] = [] \<or> iso_date (meta_get (hit_metadata h) ''date'' []))
     \<longrightarrow> (\<forall>c \<in> set (prepare_candidates hits). c_parsed_date c = None))"
proof (intro conjI impI ballI)
  assume "iso_date d"
  then show "parse_date d = None" by (simp add: iso_date_no_slash parse_date_no_slash)
next
  fix c
  assume all: "\<forall>h \<in> set hits. meta_get (hit_metadata h) ''date'' [] = [] \<or> iso_date (meta_get (hit_metadata h) ''date'' [])"
    and "c \<in> set (prepare_candidates hits)"
  then obtain h where h: "h \<in> set hits" "c = candidate_of h"
    by (auto simp: prepare_candidates_def set_sort_desc)
  from all h(1) have "parse_date (meta_get (hit_metadata h) ''date'' []) = None"
    using iso_date_no_slash parse_date_no_slash parse_date_def by metis
  then show "c_parsed_date c = None" using h(2) by (simp add: candidate_of_def Let_def)
qed

theorem parsed_date_of_normalized_date_is_none_witness:
  "iso_date ''2023-01-05'' \<and> parse_date ''2023-01-05'' = None \<and>
   map c_parsed_date (prepare_candidates
     [\<lparr>hit_id = ''TCKT-1'', hit_score = (9::int), hit_metadata = [(''date'', ''2023-01-05'')]\<rparr>,
      \<lparr>hit_id = ''TCKT-2'', hit_score = 7, hit_metadata = [(''date'', [])]\<rparr>]) = [None, None]"
  using parsed_date_of_normalized_date_is_none [of "''2023-01-05''"
     "[\<lparr>hit_id = ''TCKT-1'', hit_score = (9::int), hit_metadata = [(''date'', ''2023-01-05'')]\<rparr>,
       \<lparr>hit_id = ''TCKT-2'', hit_score = 7, hit_metadata = [(''date'', [])]\<rparr>]"]
  by (simp add: iso_date_def digit_char_def prepare_candidates_def sort_desc_def
        candidate_of_def meta_get_def parse_date_def)

text \<open>The parser is not constantly \<open>None\<close>: it reads the format it was written for.\<close>

lemma parse_date_reads_mdY: "parse_date ''01/05/2023'' = Some (2023, 1, 5)"
  by (simp add: parse_date_def strptime_mdY_def split_slash_def month_field_def day_field_def
        year_field_def digit_char_def nat_of_digits_def digit_val_def days_in_month_def
        leap_year_def)

end

